theory Spec2Isabelle
  imports Main "HOL-Library.AList"
begin


text \<open>
  A shallow embedding of the orchestration logic of \<^verbatim>\<open>src/globus/cli.py\<close>: the
  transfer command with its parser of transfer specifications, the activation of
  endpoints (automatic, then manual), the wait for a task, and the release command that
  resumes held jobs. The transfer service, the operator at the terminal and the job
  scheduler are outside the program; they are modelled as an environment that answers
  every call, and the program's calls are recorded in a transcript.
\<close>

section \<open>Outcomes of a command\<close>

text \<open>
  \<^verbatim>\<open>error(msg, exit_code)\<close> prints the message and calls \<^verbatim>\<open>sys.exit\<close>; the exit codes
  are constants of the module \<^verbatim>\<open>constants\<close>, which is not under \<^verbatim>\<open>src/\<close>: they are
  taken as distinct values, by the names the code gives them. \<open>ENDPOINT_INFO_ERROR\<close> stands
  for the code with which \<^verbatim>\<open>EndpointInfo.get_or_exit\<close> ends the process. A Python
  exception that no handler catches ends the command as \<open>Raises\<close>; \<open>Aborted\<close> is the
  operator's ctrl-c at a \<^verbatim>\<open>click.confirm\<close> prompt. A command returns \<open>Inl\<close> of a
  failure or \<open>Inr\<close> of its result.
\<close>

datatype exit_code =
    AUTHORIZATION_ERROR
  | ENDPOINT_INFO_ERROR
  | ENDPOINT_ACTIVATION_ERROR
  | INVALID_TRANSFER_SPECIFICATION_ERROR
  | WAIT_TASK_TIMEOUT
  | WAIT_TASK_ERROR

datatype py_exception = ValueError | IndexError

datatype failure =
    SysExit exit_code string
  | Raises py_exception
  | Aborted

type_synonym 'a outcome = "failure + 'a"

section \<open>The transfer service, the operator and the scheduler\<close>

text \<open>
  What the outside answers: \<open>endpoint_info\<close> holds the three fields of \<^verbatim>\<open>EndpointInfo\<close>
  that the code reads (\<^verbatim>\<open>id\<close>, \<^verbatim>\<open>is_active\<close>, \<^verbatim>\<open>activation_expires_in\<close>); \<open>poll\<close> is
  what \<^verbatim>\<open>task_wait\<close> does, return a truth value or raise \<^verbatim>\<open>TransferAPIError\<close>; a
  \<open>classad_value\<close> is the value of a job attribute, \<^verbatim>\<open>classad.Value.Undefined\<close> or a
  string. \<^verbatim>\<open>classad.quote(endpoint)\<close> is modelled as \<open>StringValue endpoint\<close> and the
  expression \<^verbatim>\<open>"Undefined"\<close> as \<open>Undefined\<close>.

  An \<open>env\<close> gives the answer to each call as a function of the time of the call, the
  number of calls made so far, so that answers may change during a run (an endpoint
  becomes active after the operator acted). \<open>confirm\<close> is \<open>True\<close> when the operator
  answers the prompt and \<open>False\<close> when the operator aborts. \<open>is_interactive\<close> is the
  result of \<^verbatim>\<open>utils.is_interactive()\<close>, which is not under \<^verbatim>\<open>src/\<close>: a parameter.

  A \<open>world\<close> is the state outside the program: the transcript \<open>events\<close> of the calls
  made, newest first, each with its answer; the scheduler's \<open>queue\<close>; the attributes
  \<open>ads\<close> of every job record by cluster id; and the cluster id of the job this process
  runs as.
\<close>

record endpoint_info =
  info_id :: string
  is_active :: bool
  activation_expires_in :: int

datatype poll = PollReturns bool | PollRaises

datatype classad_value = Undefined | StringValue string

record transfer_item =
  item_source :: string
  item_destination :: string
  item_recursive :: bool

record transfer_data =
  source_endpoint :: string
  destination_endpoint :: string
  label :: "string option"
  sync_level :: string
  preserve_timestamp :: bool
  verify_checksum :: bool
  items :: "transfer_item list"

datatype event =
    GetEndpoint string "endpoint_info option"
  | EndpointAutoactivate string string
  | Confirm bool
  | SetJobAttr int string classad_value
  | SubmitTransfer transfer_data string
  | TaskWait string int int poll
  | ScheddRelease int

record env =
  get_endpoint :: "nat \<Rightarrow> string \<Rightarrow> endpoint_info option"
  endpoint_autoactivate :: "nat \<Rightarrow> string \<Rightarrow> string"
  submit_transfer :: "nat \<Rightarrow> transfer_data \<Rightarrow> string"
  task_wait :: "nat \<Rightarrow> string \<Rightarrow> poll"
  confirm :: "nat \<Rightarrow> bool"
  is_interactive :: bool

record queued_job =
  cluster_id :: int
  is_globus_job :: bool
  is_held :: bool

record world =
  events :: "event list"
  queue :: "queued_job list"
  ads :: "int \<Rightarrow> (string \<times> classad_value) list"
  current_cluster :: int

record settings =
  refresh_token :: "string option"

definition now :: "world \<Rightarrow> nat" where
  "now w = length (events w)"

definition record_event :: "event \<Rightarrow> world \<Rightarrow> world" where
  "record_event e w = w\<lparr>events := e # events w\<rparr>"

section \<open>String helpers of Python\<close>

fun str_nat :: "nat \<Rightarrow> string" where
  "str_nat n =
     (if n < 10 then [char_of (48 + n)]
      else str_nat (n div 10) @ [char_of (48 + n mod 10)])"

definition str_int :: "int \<Rightarrow> string" where
  "str_int i = (if i < 0 then CHR ''-'' # str_nat (nat (- i)) else str_nat (nat i))"

fun join_with :: "string \<Rightarrow> string list \<Rightarrow> string" where
  "join_with sep [] = []"
| "join_with sep [x] = x"
| "join_with sep (x # y # ys) = x @ sep @ join_with sep (y # ys)"

fun split_on :: "char \<Rightarrow> string \<Rightarrow> string list" where
  "split_on c [] = [[]]"
| "split_on c (x # xs) =
     (if x = c then [] # split_on c xs
      else (case split_on c xs of
              [] \<Rightarrow> [[x]]
            | p # ps \<Rightarrow> (x # p) # ps))"

definition startswith :: "string \<Rightarrow> string \<Rightarrow> bool" where
  "startswith s pre = (take (length pre) s = pre)"

section \<open>Job records\<close>

record job =
  job_cluster_id :: int
  job_is_held :: bool
  job_items :: "(string \<times> classad_value) list"

text \<open>
  Modelled from the spec: the constant \<^verbatim>\<open>constants.ENDPOINT_ACTIVATION_REQUIRED\<close> is not
  under \<^verbatim>\<open>src/\<close>; the spec names the attributes \<^verbatim>\<open>ENDPOINT_ACTIVATION_REQUIRED_<index>\<close>.
\<close>

definition ENDPOINT_ACTIVATION_REQUIRED :: string where
  "ENDPOINT_ACTIVATION_REQUIRED = ''ENDPOINT_ACTIVATION_REQUIRED''"

text \<open>
  Modelled from the spec: \<^verbatim>\<open>jobs.get_globus_jobs\<close> is not under \<^verbatim>\<open>src/\<close>. The spec gives
  \<^verbatim>\<open>listOwnedJobs()\<close>: all scheduler jobs tagged as belonging to this tool. Each job
  object carries the attributes read when the listing was made. (The \<^verbatim>\<open>status\<close> command
  of the source prints a hold reason only \<^verbatim>\<open>if job.is_held\<close>, for jobs of the same
  listing.)
\<close>

definition get_globus_jobs :: "world \<Rightarrow> job list" where
  "get_globus_jobs w =
     map (\<lambda>q. \<lparr>job_cluster_id = cluster_id q, job_is_held = is_held q,
               job_items = ads w (cluster_id q)\<rparr>)
       (filter is_globus_job (queue w))"

text \<open>
  Modelled from the spec: \<^verbatim>\<open>jobs.set_job_attr\<close> is not under \<^verbatim>\<open>src/\<close>. The spec gives
  \<^verbatim>\<open>setAttribute(job, key, value)\<close>; without \<^verbatim>\<open>scratch_ad\<close> the attribute is written
  onto the record of the current job. A record is an association list, updated in place
  or extended at its end.
\<close>

definition set_job_attr :: "string \<Rightarrow> classad_value \<Rightarrow> job option \<Rightarrow> world \<Rightarrow> world" where
  "set_job_attr key v scratch_ad w =
     (let cid = (case scratch_ad of None \<Rightarrow> current_cluster w | Some j \<Rightarrow> job_cluster_id j)
      in record_event (SetJobAttr cid key v)
           (w\<lparr>ads := (ads w)(cid := AList.update key v (ads w cid))\<rparr>))"

text \<open>
  \<^verbatim>\<open>schedd.act(htcondor.JobAction.Release, f"ClusterId == {job.cluster_id}")\<close>.
\<close>

definition schedd_release :: "int \<Rightarrow> world \<Rightarrow> world" where
  "schedd_release cid w =
     record_event (ScheddRelease cid)
       (w\<lparr>queue := map (\<lambda>q. if cluster_id q = cid then q\<lparr>is_held := False\<rparr> else q) (queue w)\<rparr>)"

section \<open>Endpoint activation\<close>

text \<open>
  Modelled from the spec: \<^verbatim>\<open>EndpointInfo.get_or_exit\<close> is not under \<^verbatim>\<open>src/\<close>. The spec
  gives \<^verbatim>\<open>getEndpointStatus(id) -> {status, internalId, expiresIn}\<close>; as its name says, a
  lookup the service does not answer ends the process (here with the endpoint as the
  message).
\<close>

definition get_or_exit :: "env \<Rightarrow> string \<Rightarrow> world \<Rightarrow> endpoint_info outcome \<times> world" where
  "get_or_exit env endpoint w =
     (let r = get_endpoint env (now w) endpoint;
          w' = record_event (GetEndpoint endpoint r) w
      in case r of
           None \<Rightarrow> (Inl (SysExit ENDPOINT_INFO_ERROR endpoint), w')
         | Some info \<Rightarrow> (Inr info, w'))"

definition get_transfer_client_or_exit :: "string option \<Rightarrow> unit outcome" where
  "get_transfer_client_or_exit token =
     (case token of
        None \<Rightarrow> Inl (SysExit AUTHORIZATION_ERROR
                 (''Was not able to find a refresh token; have you run '' @ [CHR 0x27] @
                  ''globus login'' @ [CHR 0x27] @ ''?''))
      | Some t \<Rightarrow> Inr ())"

text \<open>
  \<^verbatim>\<open>activate_endpoints_or_exit\<close>, lines 779 to 795. \<open>unactivated_filter\<close> is the list
  comprehension of its first statement, \<open>log_expirations\<close> its last loop.
\<close>

fun unactivated_filter ::
  "env \<Rightarrow> string list \<Rightarrow> string list \<Rightarrow> world \<Rightarrow> string list outcome \<times> world" where
  "unactivated_filter env [] acc w = (Inr acc, w)"
| "unactivated_filter env (e # es) acc w =
     (case get_or_exit env e w of
        (Inl f, w') \<Rightarrow> (Inl f, w')
      | (Inr info, w') \<Rightarrow>
          unactivated_filter env es (if \<not> is_active info then acc @ [e] else acc) w')"

fun autoactivate_loop ::
  "env \<Rightarrow> string list \<Rightarrow> string list \<Rightarrow> world \<Rightarrow> string list \<times> world" where
  "autoactivate_loop env [] unactivated w = (unactivated, w)"
| "autoactivate_loop env (endpoint # rest) unactivated w =
     (let code = endpoint_autoactivate env (now w) endpoint;
          w' = record_event (EndpointAutoactivate endpoint code) w
      in autoactivate_loop env rest
           (if code = ''AutoActivationFailed'' then unactivated @ [endpoint] else unactivated) w')"

definition activate_endpoints_automatically ::
  "env \<Rightarrow> string list \<Rightarrow> world \<Rightarrow> string list \<times> world" where
  "activate_endpoints_automatically env endpoints w = autoactivate_loop env endpoints [] w"

text \<open>
  \<^verbatim>\<open>activate_endpoints_manually\<close>, lines 809 to 833. \<open>confirm_loop\<close> is its \<^verbatim>\<open>while\<close>
  loop, which may run for ever: \<open>fuel\<close> bounds the number of status checks of one loop,
  and \<open>None\<close> is a run that has not ended within it. \<open>idx\<close> is the counter of
  \<^verbatim>\<open>enumerate\<close>.
\<close>

fun confirm_loop :: "nat \<Rightarrow> env \<Rightarrow> string \<Rightarrow> world \<Rightarrow> (unit outcome \<times> world) option" where
  "confirm_loop 0 env endpoint w = None"
| "confirm_loop (Suc fuel) env endpoint w =
     (case get_or_exit env endpoint w of
        (Inl f, w') \<Rightarrow> Some (Inl f, w')
      | (Inr info, w') \<Rightarrow>
          if is_active info then Some (Inr (), w')
          else (let ok = confirm env (now w');
                    w'' = record_event (Confirm ok) w'
                in if ok then confirm_loop fuel env endpoint w''
                   else Some (Inl Aborted, w'')))"

definition activation_key :: "nat \<Rightarrow> string" where
  "activation_key idx = ENDPOINT_ACTIVATION_REQUIRED @ ''_'' @ str_nat idx"

fun manual_loop ::
  "nat \<Rightarrow> env \<Rightarrow> nat \<Rightarrow> string list \<Rightarrow> string list \<Rightarrow> world
     \<Rightarrow> (string list outcome \<times> world) option" where
  "manual_loop fuel env idx [] unactivated w = Some (Inr unactivated, w)"
| "manual_loop fuel env idx (endpoint # rest) unactivated w =
     (case get_or_exit env endpoint w of
        (Inl f, w1) \<Rightarrow> Some (Inl f, w1)
      | (Inr info, w1) \<Rightarrow>
          if is_interactive env then
            (case confirm_loop fuel env endpoint w1 of
               None \<Rightarrow> None
             | Some (Inl f, w2) \<Rightarrow> Some (Inl f, w2)
             | Some (Inr u, w2) \<Rightarrow> manual_loop fuel env (idx + 1) rest unactivated w2)
          else
            (let key = activation_key idx;
                 w2 = set_job_attr key (StringValue endpoint) None w1
             in manual_loop fuel env (idx + 1) rest (unactivated @ [endpoint]) w2))"

definition activate_endpoints_manually ::
  "nat \<Rightarrow> env \<Rightarrow> string list \<Rightarrow> world \<Rightarrow> (string list outcome \<times> world) option" where
  "activate_endpoints_manually fuel env endpoints w = manual_loop fuel env 0 endpoints [] w"

fun log_expirations :: "env \<Rightarrow> string list \<Rightarrow> world \<Rightarrow> unit outcome \<times> world" where
  "log_expirations env [] w = (Inr (), w)"
| "log_expirations env (endpoint # rest) w =
     (case get_or_exit env endpoint w of
        (Inl f, w') \<Rightarrow> (Inl f, w')
      | (Inr info, w') \<Rightarrow> log_expirations env rest w')"

definition activation_error_msg :: "string list \<Rightarrow> string" where
  "activation_error_msg unactivated_endpoints =
     ''Was not able to activate endpoints: '' @ join_with '' '' unactivated_endpoints"

definition activate_endpoints_or_exit ::
  "nat \<Rightarrow> env \<Rightarrow> string list \<Rightarrow> world \<Rightarrow> (bool outcome \<times> world) option" where
  "activate_endpoints_or_exit fuel env endpoints w =
     (case unactivated_filter env endpoints [] w of
        (Inl f, w1) \<Rightarrow> Some (Inl f, w1)
      | (Inr unactivated1, w1) \<Rightarrow>
          (case activate_endpoints_automatically env unactivated1 w1 of
             (unactivated2, w2) \<Rightarrow>
               (case activate_endpoints_manually fuel env unactivated2 w2 of
                  None \<Rightarrow> None
                | Some (Inl f, w3) \<Rightarrow> Some (Inl f, w3)
                | Some (Inr unactivated3, w3) \<Rightarrow>
                    if length unactivated3 > 0 then
                      Some (Inl (SysExit ENDPOINT_ACTIVATION_ERROR
                                   (activation_error_msg unactivated3)), w3)
                    else
                      (case log_expirations env endpoints w3 of
                         (Inl f, w4) \<Rightarrow> Some (Inl f, w4)
                       | (Inr u, w4) \<Rightarrow> Some (Inr True, w4)))))"

section \<open>Waiting for a task\<close>

text \<open>
  \<^verbatim>\<open>wait_for_task_or_exit\<close>, lines 836 to 861: the \<^verbatim>\<open>while True\<close> loop as a recursive
  function of its three variables.
\<close>

definition timed_out_msg :: "string \<Rightarrow> int \<Rightarrow> string" where
  "timed_out_msg task_id attempts =
     ''Timed out waiting for task '' @ task_id @ '' after '' @ str_int attempts @ '' attempts.''"

function wait_loop ::
  "env \<Rightarrow> string \<Rightarrow> int \<Rightarrow> int \<Rightarrow> int \<Rightarrow> int \<Rightarrow> bool \<Rightarrow> bool \<Rightarrow> world
     \<Rightarrow> bool outcome \<times> world" where
  "wait_loop env task_id timeout interval max_attempts attempts done errored w =
     (let attempts' = attempts + 1;
          r = task_wait env (now w) task_id;
          w' = record_event (TaskWait task_id timeout interval r) w;
          done' = (case r of PollReturns b \<Rightarrow> b | PollRaises \<Rightarrow> done);
          errored' = (case r of PollReturns b \<Rightarrow> errored | PollRaises \<Rightarrow> True)
      in if done' then (Inr done', w')
         else if attempts' \<ge> max_attempts then
           (Inl (SysExit (if \<not> errored' then WAIT_TASK_TIMEOUT else WAIT_TASK_ERROR)
                   (timed_out_msg task_id attempts')), w')
         else wait_loop env task_id timeout interval max_attempts attempts' done' errored' w')"
  by pat_completeness auto
termination
  by (relation "measure (\<lambda>(env, task_id, timeout, interval, max_attempts, attempts, done, errored, w).
        nat (max_attempts - attempts))") auto

definition wait_for_task_or_exit ::
  "env \<Rightarrow> string \<Rightarrow> int \<Rightarrow> int \<Rightarrow> int \<Rightarrow> world \<Rightarrow> bool outcome \<times> world" where
  "wait_for_task_or_exit env task_id timeout interval max_attempts w =
     wait_loop env task_id timeout interval max_attempts 0 False False w"

section \<open>The transfer command\<close>

text \<open>
  \<^verbatim>\<open>transfer\<close>, lines 580 to 620. \<open>add_transfers\<close> is the loop over the transfer
  specifications: \<^verbatim>\<open>src, dst = t.split(":")\<close> raises \<^verbatim>\<open>ValueError\<close> unless the split
  gives two parts, and the chained comparison \<^verbatim>\<open>src[-1] == dst[-1] == "/"\<close> reads the
  last character of both, which raises \<^verbatim>\<open>IndexError\<close> on an empty string.
\<close>

definition invalid_spec_msg :: "string \<Rightarrow> string" where
  "invalid_spec_msg t =
     ''Invalid transfer specification '' @ [CHR 0x27] @ t @ [CHR 0x27] @
     '' (if transferring directories, both paths must end with /)''"

definition TransferData ::
  "string \<Rightarrow> string \<Rightarrow> string option \<Rightarrow> string \<Rightarrow> bool \<Rightarrow> bool \<Rightarrow> transfer_data" where
  "TransferData src_endpoint dst_endpoint lbl level preserve_timestamps verify_checksums =
     \<lparr>source_endpoint = src_endpoint, destination_endpoint = dst_endpoint,
      label = lbl, sync_level = level,
      preserve_timestamp = preserve_timestamps,
      verify_checksum = verify_checksums, items = []\<rparr>"

definition add_item :: "string \<Rightarrow> string \<Rightarrow> bool \<Rightarrow> transfer_data \<Rightarrow> transfer_data" where
  "add_item src dst recursive tdata =
     tdata\<lparr>items := items tdata @
       [\<lparr>item_source = src, item_destination = dst, item_recursive = recursive\<rparr>]\<rparr>"

fun add_transfers :: "string list \<Rightarrow> transfer_data \<Rightarrow> transfer_data outcome" where
  "add_transfers [] tdata = Inr tdata"
| "add_transfers (t # ts) tdata =
     (case split_on CHR '':'' t of
        [src, dst] \<Rightarrow>
          if src = [] \<or> dst = [] then Inl (Raises IndexError)
          else if last src = last dst \<and> last dst = CHR ''/'' then
            add_transfers ts (add_item src dst True tdata)
          else if last src = CHR ''/'' \<or> last dst = CHR ''/'' then
            Inl (SysExit INVALID_TRANSFER_SPECIFICATION_ERROR (invalid_spec_msg t))
          else add_transfers ts (add_item src dst False tdata)
      | _ \<Rightarrow> Inl (Raises ValueError))"

definition transfer ::
  "nat \<Rightarrow> env \<Rightarrow> settings \<Rightarrow> string \<Rightarrow> string \<Rightarrow> string list \<Rightarrow> string option \<Rightarrow> string
     \<Rightarrow> bool \<Rightarrow> bool \<Rightarrow> bool \<Rightarrow> int \<Rightarrow> int \<Rightarrow> int \<Rightarrow> world
     \<Rightarrow> (string outcome \<times> world) option" where
  "transfer fuel env stg src_endpoint dst_endpoint transfers lbl level preserve_timestamps
       verify_checksums wait timeout interval attempts w =
     (case get_transfer_client_or_exit (refresh_token stg) of
        Inl f \<Rightarrow> Some (Inl f, w)
      | Inr tc \<Rightarrow>
          (case add_transfers transfers
                  (TransferData src_endpoint dst_endpoint lbl level preserve_timestamps
                     verify_checksums) of
             Inl f \<Rightarrow> Some (Inl f, w)
           | Inr tdata \<Rightarrow>
               (case activate_endpoints_or_exit fuel env [src_endpoint, dst_endpoint] w of
                  None \<Rightarrow> None
                | Some (Inl f, w1) \<Rightarrow> Some (Inl f, w1)
                | Some (Inr ok, w1) \<Rightarrow>
                    (let task_id = submit_transfer env (now w1) tdata;
                         w2 = record_event (SubmitTransfer tdata task_id) w1
                     in if wait then
                          (case wait_for_task_or_exit env task_id timeout interval attempts w2 of
                             (Inl f, w3) \<Rightarrow> Some (Inl f, w3)
                           | (Inr d, w3) \<Rightarrow> Some (Inr task_id, w3))
                        else Some (Inr task_id, w2)))))"

section \<open>The release command\<close>

text \<open>
  \<^verbatim>\<open>release\<close>, lines 721 to 743. \<open>manual_endpoints_of\<close> is the dictionary comprehension
  \<^verbatim>\<open>{v: k for k, v in job.items() if ...}\<close>, as an association list from endpoint to
  attribute name: a later attribute of the same endpoint replaces the name, in place.
\<close>

definition manual_endpoints_of :: "(string \<times> classad_value) list \<Rightarrow> (string \<times> string) list" where
  "manual_endpoints_of kvs =
     foldl (\<lambda>d (k, v).
              case v of
                Undefined \<Rightarrow> d
              | StringValue e \<Rightarrow>
                  if startswith k ENDPOINT_ACTIVATION_REQUIRED then AList.update e k d else d)
       [] kvs"

fun reset_attrs :: "string list \<Rightarrow> job \<Rightarrow> world \<Rightarrow> world" where
  "reset_attrs [] j w = w"
| "reset_attrs (k # ks) j w = reset_attrs ks j (set_job_attr k Undefined (Some j) w)"

fun release_loop ::
  "nat \<Rightarrow> env \<Rightarrow> settings \<Rightarrow> job list \<Rightarrow> world \<Rightarrow> (unit outcome \<times> world) option" where
  "release_loop fuel env stg [] w = Some (Inr (), w)"
| "release_loop fuel env stg (j # js) w =
     (let manual_endpoints = manual_endpoints_of (job_items j) in
      if length manual_endpoints > 0 then
        (case get_transfer_client_or_exit (refresh_token stg) of
           Inl f \<Rightarrow> Some (Inl f, w)
         | Inr tc \<Rightarrow>
             (case activate_endpoints_manually fuel env (map fst manual_endpoints) w of
                None \<Rightarrow> None
              | Some (Inl f, w1) \<Rightarrow> Some (Inl f, w1)
              | Some (Inr unactivated, w1) \<Rightarrow>
                  release_loop fuel env stg js
                    (schedd_release (job_cluster_id j)
                       (reset_attrs (map snd manual_endpoints) j w1))))
      else release_loop fuel env stg js (schedd_release (job_cluster_id j) w))"

definition release :: "nat \<Rightarrow> env \<Rightarrow> settings \<Rightarrow> world \<Rightarrow> (unit outcome \<times> world) option" where
  "release fuel env stg w = release_loop fuel env stg (get_globus_jobs w) w"


section \<open>Reading the transcript\<close>

text \<open>
  Functions that read the transcript, and the lists of answers an environment gives to a
  run of calls that starts at time \<open>n\<close>; the properties below are stated with them.
\<close>

fun is_task_wait :: "event \<Rightarrow> bool" where
  "is_task_wait (TaskWait t to iv r) = True"
| "is_task_wait e = False"

definition task_wait_calls :: "world \<Rightarrow> nat" where
  "task_wait_calls w = length (filter is_task_wait (events w))"

fun status_query :: "event \<Rightarrow> string option" where
  "status_query (GetEndpoint e r) = Some e"
| "status_query ev = None"

fun reports_active :: "string \<Rightarrow> event \<Rightarrow> bool" where
  "reports_active e (GetEndpoint e' r) =
     (e' = e \<and> (case r of None \<Rightarrow> False | Some info \<Rightarrow> is_active info))"
| "reports_active e ev = False"


fun schedd_released :: "event \<Rightarrow> int option" where
  "schedd_released (ScheddRelease cid) = Some cid"
| "schedd_released ev = None"

fun auto_answers :: "env \<Rightarrow> nat \<Rightarrow> string list \<Rightarrow> (string \<times> string) list" where
  "auto_answers env n [] = []"
| "auto_answers env n (e # es) = (e, endpoint_autoactivate env n e) # auto_answers env (Suc n) es"

definition auto_rejected :: "env \<Rightarrow> nat \<Rightarrow> string list \<Rightarrow> string list" where
  "auto_rejected env n es =
     map fst (filter (\<lambda>(e, c). c = ''AutoActivationFailed'') (auto_answers env n es))"

fun status_answers :: "env \<Rightarrow> nat \<Rightarrow> string list \<Rightarrow> (string \<times> endpoint_info option) list" where
  "status_answers env n [] = []"
| "status_answers env n (e # es) = (e, get_endpoint env n e) # status_answers env (Suc n) es"

definition reported_inactive :: "env \<Rightarrow> nat \<Rightarrow> string list \<Rightarrow> string list" where
  "reported_inactive env n es =
     map fst (filter (\<lambda>(e, r). case r of None \<Rightarrow> False | Some info \<Rightarrow> \<not> is_active info)
                (status_answers env n es))"

fun attr_write :: "event \<Rightarrow> (int \<times> string \<times> classad_value) option" where
  "attr_write (SetJobAttr cid k v) = Some (cid, k, v)"
| "attr_write ev = None"

fun deferred_events :: "env \<Rightarrow> int \<Rightarrow> nat \<Rightarrow> nat \<Rightarrow> string list \<Rightarrow> event list" where
  "deferred_events env cid n idx [] = []"
| "deferred_events env cid n idx (e # es) =
     GetEndpoint e (get_endpoint env n e)
       # SetJobAttr cid (activation_key idx) (StringValue e)
       # deferred_events env cid (n + 2) (idx + 1) es"

fun deferred_ad ::
  "nat \<Rightarrow> string list \<Rightarrow> (string \<times> classad_value) list \<Rightarrow> (string \<times> classad_value) list" where
  "deferred_ad idx [] ad = ad"
| "deferred_ad idx (e # es) ad =
     deferred_ad (idx + 1) es (AList.update (activation_key idx) (StringValue e) ad)"

definition digits_value :: "string \<Rightarrow> nat" where
  "digits_value s = foldl (\<lambda>n c. 10 * n + (of_char c - 48)) 0 s"

definition releases :: "world \<Rightarrow> int list" where
  "releases w = List.map_filter schedd_released (rev (events w))"

definition new_events :: "world \<Rightarrow> world \<Rightarrow> event list" where
  "new_events w w' = take (length (events w') - length (events w)) (events w')"

section \<open>Example environments and worlds\<close>

definition quiet_env :: env where
  "quiet_env =
     \<lparr>get_endpoint = (\<lambda>n e. None),
      endpoint_autoactivate = (\<lambda>n e. ''AutoActivationFailed''),
      submit_transfer = (\<lambda>n d. ''task''),
      task_wait = (\<lambda>n t. PollReturns False),
      confirm = (\<lambda>n. False),
      is_interactive = False\<rparr>"

definition inactive_info :: "string \<Rightarrow> endpoint_info" where
  "inactive_info e = \<lparr>info_id = e, is_active = False, activation_expires_in = 0\<rparr>"

definition active_info :: "string \<Rightarrow> endpoint_info" where
  "active_info e = \<lparr>info_id = e, is_active = True, activation_expires_in = 3600\<rparr>"

definition deferred_env :: env where
  "deferred_env = quiet_env\<lparr>get_endpoint := (\<lambda>n e. Some (inactive_info e))\<rparr>"

definition unverified_env :: env where
  "unverified_env =
     deferred_env\<lparr>endpoint_autoactivate := (\<lambda>n e. ''AutoActivated.CachedCredential'')\<rparr>"

definition abort_env :: env where
  "abort_env = deferred_env\<lparr>is_interactive := True\<rparr>"

definition active_env :: env where
  "active_env = quiet_env\<lparr>get_endpoint := (\<lambda>n e. Some (active_info e))\<rparr>"

definition patient_env :: env where
  "patient_env =
     quiet_env\<lparr>get_endpoint := (\<lambda>n e. Some (if n < 2 then inactive_info e else active_info e)),
               confirm := (\<lambda>n. True),
               is_interactive := True\<rparr>"

definition empty_world :: world where
  "empty_world = \<lparr>events = [], queue = [], ads = (\<lambda>cid. []), current_cluster = 0\<rparr>"


definition stale_world :: world where
  "stale_world =
     empty_world\<lparr>ads := (\<lambda>cid. [])(0 := [(activation_key 0, StringValue ''old'')])\<rparr>"


definition running_world :: world where
  "running_world =
     empty_world\<lparr>queue := [\<lparr>cluster_id = 5, is_globus_job = True, is_held = False\<rparr>]\<rparr>"

definition held_world :: world where
  "held_world =
     empty_world\<lparr>queue := [\<lparr>cluster_id = 7, is_globus_job = True, is_held = True\<rparr>,
                          \<lparr>cluster_id = 8, is_globus_job = True, is_held = True\<rparr>],
                 ads := (\<lambda>cid. [])(7 := [(activation_key 0, StringValue ''ep'')])\<rparr>"

definition pending_job :: job where
  "pending_job = \<lparr>job_cluster_id = 7, job_is_held = True,
       job_items = [(''ENDPOINT_ACTIVATION_REQUIRED_0'', StringValue ''ep'')]\<rparr>"


section \<open>Properties of the wait loop\<close>

declare wait_loop.simps [simp del]

lemma now_record_event [simp]: "now (record_event e w) = Suc (now w)"
  by (simp add: now_def record_event_def)

lemma task_wait_calls_record [simp]:
  "task_wait_calls (record_event (TaskWait t to iv r) w) = Suc (task_wait_calls w)"
  by (simp add: task_wait_calls_def record_event_def)

text \<open>One iteration of the loop, by the answer of the poll.\<close>

lemma wait_loop_done:
  "task_wait env (now w) t = PollReturns True \<Longrightarrow>
   wait_loop env t to iv m a d e w = (Inr True, record_event (TaskWait t to iv (PollReturns True)) w)"
  by (subst wait_loop.simps) (simp add: Let_def)

lemma wait_loop_last:
  "task_wait env (now w) t = r \<Longrightarrow> r \<noteq> PollReturns True \<Longrightarrow> \<not> d \<Longrightarrow> m \<le> a + 1 \<Longrightarrow>
   wait_loop env t to iv m a d e w =
     (Inl (SysExit (if e \<or> r = PollRaises then WAIT_TASK_ERROR else WAIT_TASK_TIMEOUT)
             (timed_out_msg t (a + 1))),
      record_event (TaskWait t to iv r) w)"
  by (subst wait_loop.simps) (auto simp add: Let_def split: poll.splits)

lemma wait_loop_next:
  "task_wait env (now w) t = r \<Longrightarrow> r \<noteq> PollReturns True \<Longrightarrow> \<not> d \<Longrightarrow> a + 1 < m \<Longrightarrow>
   wait_loop env t to iv m a d e w =
     wait_loop env t to iv m (a + 1) False (e \<or> r = PollRaises)
       (record_event (TaskWait t to iv r) w)"
  by (subst wait_loop.simps) (auto simp add: Let_def split: poll.splits)

lemma wait_loop_calls_bounds:
  "task_wait_calls (snd (wait_loop env t to iv m a False e w))
      \<le> task_wait_calls w + nat (max 1 (m - a))
   \<and> task_wait_calls w < task_wait_calls (snd (wait_loop env t to iv m a False e w))"
proof (induction "nat (m - a)" arbitrary: a e w)
  case 0
  then have le: "m \<le> a + 1" by simp
  show ?case
  proof (cases "task_wait env (now w) t = PollReturns True")
    case True
    then show ?thesis by (simp add: wait_loop_done)
  next
    case False
    then show ?thesis using le by (simp add: wait_loop_last [OF refl])
  qed
next
  case (Suc n)
  show ?case
  proof (cases "task_wait env (now w) t = PollReturns True")
    case True
    then show ?thesis by (simp add: wait_loop_done)
  next
    case False
    show ?thesis
    proof (cases "m \<le> a + 1")
      case True
      then show ?thesis using False by (simp add: wait_loop_last [OF refl])
    next
      case lt: False
      have n: "n = nat (m - (a + 1))" using Suc.hyps(2) by simp
      have step: "nat (max 1 (m - a)) = Suc (nat (max 1 (m - (a + 1))))" using lt by simp
      from Suc.hyps(1) [OF n, of "e \<or> task_wait env (now w) t = PollRaises"
          "record_event (TaskWait t to iv (task_wait env (now w) t)) w"]
      show ?thesis using False lt unfolding step
        by (simp add: wait_loop_next [OF refl])
    qed
  qed
qed


lemma ex_less_Suc_shift:
  "(\<exists>k<Suc n. P k) \<longleftrightarrow> P 0 \<or> (\<exists>k<n. P (Suc k))"
  by (auto simp: less_Suc_eq_0_disj)

lemma wait_loop_exhausted:
  "\<forall>k < nat (max 1 (m - a)). task_wait env (now w + k) t \<noteq> PollReturns True \<Longrightarrow>
   fst (wait_loop env t to iv m a False e w) =
     Inl (SysExit
            (if e \<or> (\<exists>k < nat (max 1 (m - a)). task_wait env (now w + k) t = PollRaises)
             then WAIT_TASK_ERROR else WAIT_TASK_TIMEOUT)
            (timed_out_msg t (max (a + 1) m)))
   \<and> task_wait_calls (snd (wait_loop env t to iv m a False e w))
       = task_wait_calls w + nat (max 1 (m - a))"
proof (induction "nat (m - a)" arbitrary: a e w)
  case 0
  then have le: "m \<le> a + 1" and one: "nat (max 1 (m - a)) = 1" by simp_all
  from 0(2) have nd: "task_wait env (now w) t \<noteq> PollReturns True"
    unfolding one by simp
  have mx: "max (a + 1) m = a + 1" using le by simp
  show ?case
    unfolding one mx using nd le by (simp add: wait_loop_last [OF refl])
next
  case (Suc n)
  have pos: "0 < nat (max 1 (m - a))" by simp
  from Suc.prems [rule_format, OF pos] have nd: "task_wait env (now w) t \<noteq> PollReturns True"
    by simp
  show ?case
  proof (cases "m \<le> a + 1")
    case True
    then have one: "nat (max 1 (m - a)) = 1" by simp
    have mx: "max (a + 1) m = a + 1" using True by simp
    show ?thesis
      unfolding one mx using nd True by (simp add: wait_loop_last [OF refl])
  next
    case lt: False
    let ?r = "task_wait env (now w) t"
    let ?w = "record_event (TaskWait t to iv ?r) w"
    have n: "n = nat (m - (a + 1))" using Suc.hyps(2) by simp
    have step: "nat (max 1 (m - a)) = Suc (nat (max 1 (m - (a + 1))))" using lt by simp
    have mx: "max (a + 1 + 1) m = max (a + 1) m" using lt by simp
    have pre: "\<forall>k < nat (max 1 (m - (a + 1))). task_wait env (now ?w + k) t \<noteq> PollReturns True"
      using Suc.prems unfolding step by auto
    from Suc.hyps(1) [OF n pre, of "e \<or> ?r = PollRaises"]
    show ?thesis
      using nd lt unfolding step ex_less_Suc_shift mx
      by (simp add: wait_loop_next [OF refl] disj_ac)
  qed
qed

lemma wait_loop_first_done:
  "k < nat (max 1 (m - a)) \<Longrightarrow> task_wait env (now w + k) t = PollReturns True \<Longrightarrow>
   \<forall>j<k. task_wait env (now w + j) t \<noteq> PollReturns True \<Longrightarrow>
   fst (wait_loop env t to iv m a False e w) = Inr True
   \<and> task_wait_calls (snd (wait_loop env t to iv m a False e w)) = task_wait_calls w + k + 1"
proof (induction k arbitrary: a e w)
  case 0
  then show ?case by (simp add: wait_loop_done)
next
  case (Suc k)
  let ?r = "task_wait env (now w) t"
  let ?w = "record_event (TaskWait t to iv ?r) w"
  from Suc.prems(3) [rule_format, of 0] have nd: "?r \<noteq> PollReturns True" by simp
  from Suc.prems(1) have lt: "a + 1 < m" by (cases "m \<le> a + 1") auto
  have k: "k < nat (max 1 (m - (a + 1)))" using Suc.prems(1) lt by auto
  have dn: "task_wait env (now ?w + k) t = PollReturns True" using Suc.prems(2) by simp
  have pre: "\<forall>j<k. task_wait env (now ?w + j) t \<noteq> PollReturns True"
    using Suc.prems(3) by auto
  from Suc.IH [OF k dn pre, of "e \<or> ?r = PollRaises"]
  show ?case using nd lt by (simp add: wait_loop_next [OF refl])
qed


text \<open>
  Claim C9. For every integer \<open>max_attempts\<close> and every sequence of poll answers the
  task-wait loop terminates (\<open>wait_loop\<close> is a total function, its recursion measured by
  \<open>max_attempts - attempts\<close>): it ends by returning \<open>True\<close> or by one of the two wait exits,
  after at least one and at most \<open>max max_attempts 1\<close> calls of \<open>task_wait\<close>, also when
  \<open>max_attempts\<close> is zero or negative.
\<close>

theorem wait_for_task_or_exit_terminates:
  "(fst (wait_for_task_or_exit env t to iv m w) = Inr True
    \<or> fst (wait_for_task_or_exit env t to iv m w)
         = Inl (SysExit WAIT_TASK_TIMEOUT (timed_out_msg t (max 1 m)))
    \<or> fst (wait_for_task_or_exit env t to iv m w)
         = Inl (SysExit WAIT_TASK_ERROR (timed_out_msg t (max 1 m))))
   \<and> task_wait_calls w < task_wait_calls (snd (wait_for_task_or_exit env t to iv m w))
   \<and> task_wait_calls (snd (wait_for_task_or_exit env t to iv m w))
       \<le> task_wait_calls w + nat (max m 1)"
proof -
  let ?N = "nat (max 1 (m - 0))"
  have bounds: "task_wait_calls w < task_wait_calls (snd (wait_for_task_or_exit env t to iv m w))
     \<and> task_wait_calls (snd (wait_for_task_or_exit env t to iv m w))
         \<le> task_wait_calls w + nat (max m 1)"
    using wait_loop_calls_bounds [of env t to iv m 0 False w]
    by (simp add: wait_for_task_or_exit_def max.commute)
  have "fst (wait_for_task_or_exit env t to iv m w) = Inr True
    \<or> fst (wait_for_task_or_exit env t to iv m w)
         = Inl (SysExit WAIT_TASK_TIMEOUT (timed_out_msg t (max 1 m)))
    \<or> fst (wait_for_task_or_exit env t to iv m w)
         = Inl (SysExit WAIT_TASK_ERROR (timed_out_msg t (max 1 m)))"
  proof (cases "\<exists>k < ?N. task_wait env (now w + k) t = PollReturns True")
    case True
    define P where "P k \<longleftrightarrow> k < ?N \<and> task_wait env (now w + k) t = PollReturns True" for k
    from True have "\<exists>k. P k" by (auto simp: P_def)
    then obtain k where k: "P k" "\<forall>j<k. \<not> P j"
      by (metis exists_least_iff)
    have pre: "\<forall>j<k. task_wait env (now w + j) t \<noteq> PollReturns True"
      using k by (auto simp: P_def)
    from k(1) wait_loop_first_done [of k m 0 env w t to iv False, OF _ _ pre]
    show ?thesis by (simp add: P_def wait_for_task_or_exit_def)
  next
    case False
    then have "\<forall>k < ?N. task_wait env (now w + k) t \<noteq> PollReturns True" by auto
    from wait_loop_exhausted [OF this, of to iv False]
    show ?thesis by (simp add: wait_for_task_or_exit_def max.commute split: if_splits)
  qed
  with bounds show ?thesis by blast
qed

theorem wait_for_task_or_exit_terminates_witness:
  "fst (wait_for_task_or_exit quiet_env ''task'' 60 10 (- 3) empty_world)
     = Inl (SysExit WAIT_TASK_TIMEOUT (timed_out_msg ''task'' 1))
   \<and> task_wait_calls (snd (wait_for_task_or_exit quiet_env ''task'' 60 10 (- 3) empty_world)) = 1"
proof -
  have none: "task_wait_calls empty_world = 0"
    by (simp add: task_wait_calls_def empty_world_def)
  have run: "wait_for_task_or_exit quiet_env ''task'' 60 10 (- 3) empty_world =
      (Inl (SysExit WAIT_TASK_TIMEOUT (timed_out_msg ''task'' 1)),
       record_event (TaskWait ''task'' 60 10 (PollReturns False)) empty_world)"
    unfolding wait_for_task_or_exit_def
    by (subst wait_loop.simps) (simp add: Let_def quiet_env_def)
  show ?thesis
    using wait_for_task_or_exit_terminates [of quiet_env "''task''" 60 10 "- 3" empty_world]
    unfolding none by (simp add: run)
qed

text \<open>
  Claim C1. A poll that raises the transient transfer-API error does not end the retry
  loop: with attempts left, the loop goes on to the next attempt with only the
  \<open>errored\<close> flag set, and a later attempt that reports done still returns. When none
  of the \<open>max 1 max_attempts\<close> polls reports done, the command exits with
  \<open>WAIT_TASK_TIMEOUT\<close> if no poll raised, and with \<open>WAIT_TASK_ERROR\<close> if at least one did.
\<close>

theorem wait_transient_error_is_soft:
  "(task_wait env (now w) t = PollRaises \<and> a + 1 < m \<longrightarrow>
      wait_loop env t to iv m a False e w =
        wait_loop env t to iv m (a + 1) False True
          (record_event (TaskWait t to iv PollRaises) w))
   \<and> ((\<forall>k < nat (max 1 m). task_wait env (now w + k) t \<noteq> PollReturns True) \<longrightarrow>
        fst (wait_for_task_or_exit env t to iv m w) =
          Inl (SysExit
                 (if \<exists>k < nat (max 1 m). task_wait env (now w + k) t = PollRaises
                  then WAIT_TASK_ERROR else WAIT_TASK_TIMEOUT)
                 (timed_out_msg t (max 1 m)))
        \<and> task_wait_calls (snd (wait_for_task_or_exit env t to iv m w))
            = task_wait_calls w + nat (max 1 m))
   \<and> (j < nat (max 1 m) \<and> task_wait env (now w + j) t = PollReturns True
        \<and> (\<forall>i<j. task_wait env (now w + i) t \<noteq> PollReturns True) \<longrightarrow>
        fst (wait_for_task_or_exit env t to iv m w) = Inr True
        \<and> task_wait_calls (snd (wait_for_task_or_exit env t to iv m w))
            = task_wait_calls w + j + 1)"
proof (intro conjI impI)
  assume "task_wait env (now w) t = PollRaises \<and> a + 1 < m"
  then show "wait_loop env t to iv m a False e w =
        wait_loop env t to iv m (a + 1) False True
          (record_event (TaskWait t to iv PollRaises) w)"
    using wait_loop_next [of env w t PollRaises False a m to iv e] by simp
next
  assume h: "\<forall>k < nat (max 1 m). task_wait env (now w + k) t \<noteq> PollReturns True"
  then have h': "\<forall>k < nat (max 1 (m - 0)). task_wait env (now w + k) t \<noteq> PollReturns True"
    by simp
  from wait_loop_exhausted [OF h', of to iv False]
  show "fst (wait_for_task_or_exit env t to iv m w) =
          Inl (SysExit
                 (if \<exists>k < nat (max 1 m). task_wait env (now w + k) t = PollRaises
                  then WAIT_TASK_ERROR else WAIT_TASK_TIMEOUT)
                 (timed_out_msg t (max 1 m)))"
    by (simp add: wait_for_task_or_exit_def max.commute)
  from wait_loop_exhausted [OF h', of to iv False]
  show "task_wait_calls (snd (wait_for_task_or_exit env t to iv m w))
            = task_wait_calls w + nat (max 1 m)"
    by (simp add: wait_for_task_or_exit_def)
next
  assume h: "j < nat (max 1 m) \<and> task_wait env (now w + j) t = PollReturns True
        \<and> (\<forall>i<j. task_wait env (now w + i) t \<noteq> PollReturns True)"
  then have 1: "j < nat (max 1 (m - 0))" and 2: "task_wait env (now w + j) t = PollReturns True"
    and 3: "\<forall>i<j. task_wait env (now w + i) t \<noteq> PollReturns True" by simp_all
  from wait_loop_first_done [OF 1 2 3, of to iv False]
  show "fst (wait_for_task_or_exit env t to iv m w) = Inr True"
    by (simp add: wait_for_task_or_exit_def)
  from wait_loop_first_done [OF 1 2 3, of to iv False]
  show "task_wait_calls (snd (wait_for_task_or_exit env t to iv m w))
            = task_wait_calls w + j + 1"
    by (simp add: wait_for_task_or_exit_def)
qed

theorem wait_transient_error_is_soft_witness:
  "fst (wait_for_task_or_exit
          (quiet_env\<lparr>task_wait := (\<lambda>n t. if n = 0 then PollRaises else PollReturns False)\<rparr>)
          ''task'' 60 10 2 empty_world)
     = Inl (SysExit WAIT_TASK_ERROR (timed_out_msg ''task'' 2))
   \<and> fst (wait_for_task_or_exit quiet_env ''task'' 60 10 2 empty_world)
     = Inl (SysExit WAIT_TASK_TIMEOUT (timed_out_msg ''task'' 2))
   \<and> fst (wait_for_task_or_exit
          (quiet_env\<lparr>task_wait := (\<lambda>n t. if n = 0 then PollRaises else PollReturns True)\<rparr>)
          ''task'' 60 10 2 empty_world)
     = Inr True"
proof (intro conjI)
  let ?e1 = "quiet_env\<lparr>task_wait := (\<lambda>n t. if n = 0 then PollRaises else PollReturns False)\<rparr>"
  let ?e3 = "quiet_env\<lparr>task_wait := (\<lambda>n t. if n = 0 then PollRaises else PollReturns True)\<rparr>"
  have two: "nat (max 1 (2::int)) = Suc (Suc 0)" by simp
  show "fst (wait_for_task_or_exit ?e1 ''task'' 60 10 2 empty_world)
     = Inl (SysExit WAIT_TASK_ERROR (timed_out_msg ''task'' 2))"
    using wait_transient_error_is_soft [of ?e1 empty_world "''task''" 0 2 60 10 False 0]
    unfolding two by (simp add: less_Suc_eq now_def empty_world_def quiet_env_def)
  show "fst (wait_for_task_or_exit quiet_env ''task'' 60 10 2 empty_world)
     = Inl (SysExit WAIT_TASK_TIMEOUT (timed_out_msg ''task'' 2))"
    using wait_transient_error_is_soft [of quiet_env empty_world "''task''" 0 2 60 10 False 0]
    unfolding two by (simp add: less_Suc_eq now_def empty_world_def quiet_env_def)
  show "fst (wait_for_task_or_exit ?e3 ''task'' 60 10 2 empty_world) = Inr True"
    using wait_transient_error_is_soft [of ?e3 empty_world "''task''" 0 2 60 10 False 1]
    unfolding two by (simp add: less_Suc_eq now_def empty_world_def quiet_env_def)
qed


section \<open>The parser of transfer specifications\<close>

subsection \<open>Splitting a transfer specification\<close>

lemma split_on_not_Nil [simp]: "split_on c s \<noteq> []"
  by (induction s) (auto split: list.splits)

lemma split_on_length: "length (split_on c s) = Suc (count_list s c)"
  by (induction s) (auto split: list.splits)

lemma split_on_none: "c \<notin> set a \<Longrightarrow> split_on c a = [a]"
  by (induction a) auto

lemma split_on_two: "c \<notin> set a \<Longrightarrow> c \<notin> set b \<Longrightarrow> split_on c (a @ c # b) = [a, b]"
  by (induction a) (auto simp: split_on_none)

lemma split_on_single_conv: "split_on c s = [a] \<Longrightarrow> s = a \<and> c \<notin> set a"
  by (induction s arbitrary: a) (auto split: if_splits list.splits)

lemma split_on_two_conv:
  "split_on c s = [a, b] \<Longrightarrow> s = a @ c # b \<and> c \<notin> set a \<and> c \<notin> set b"
proof (induction s arbitrary: a)
  case Nil
  then show ?case by simp
next
  case (Cons x xs)
  show ?case
  proof (cases "x = c")
    case True
    with Cons.prems have "a = []" "split_on c xs = [b]" by auto
    then show ?thesis using True split_on_single_conv [of c xs b] by auto
  next
    case False
    with Cons.prems obtain p where p: "split_on c xs = [p, b]" "a = x # p"
      by (auto split: list.splits)
    from Cons.IH [OF p(1)] show ?thesis using p(2) False by auto
  qed
qed

lemma add_transfers_append:
  "add_transfers pre d0 = Inr d1 \<Longrightarrow> add_transfers (pre @ ts) d0 = add_transfers ts d1"
  by (induction pre arbitrary: d0) (auto split: list.splits if_splits)

lemma add_transfers_same_verdict:
  "(\<exists>f. add_transfers ts d = Inl f \<and> add_transfers ts d' = Inl f)
   \<or> (\<exists>x x'. add_transfers ts d = Inr x \<and> add_transfers ts d' = Inr x')"
  by (induction ts arbitrary: d d') (auto split: list.splits if_splits)


lemma add_transfers_step:
  assumes "src \<noteq> []" "dst \<noteq> []" "CHR '':'' \<notin> set src" "CHR '':'' \<notin> set dst"
  shows "add_transfers ((src @ '':'' @ dst) # ts) d =
     (if last src = last dst \<and> last dst = CHR ''/'' then add_transfers ts (add_item src dst True d)
      else if last src = CHR ''/'' \<or> last dst = CHR ''/'' then
        Inl (SysExit INVALID_TRANSFER_SPECIFICATION_ERROR (invalid_spec_msg (src @ '':'' @ dst)))
      else add_transfers ts (add_item src dst False d))"
  using assms by (simp add: split_on_two)

lemma transfer_parse_failure:
  assumes "refresh_token stg = Some tok"
    and "add_transfers ts (TransferData se de lbl level pt vc) = Inl f"
  shows "transfer fuel env stg se de ts lbl level pt vc wt timeout interval attempts w
           = Some (Inl f, w)"
  using assms by (simp add: transfer_def get_transfer_client_or_exit_def)

text \<open>
  Claim C5. Take a specification \<open>src:dst\<close> with two non-empty, colon-free paths, after
  specifications \<open>pre\<close> that the loop accepted. If exactly one of the two paths ends
  with \<open>/\<close>, the loop ends with the exit \<open>INVALID_TRANSFER_SPECIFICATION_ERROR\<close>, and the
  transfer command (with a refresh token) exits so with the world untouched: no endpoint
  was queried and no transfer was submitted. If both end with \<open>/\<close>, the item is added
  with \<open>recursive = True\<close>, if neither does, it is added as a single file, and the loop
  goes on with the specifications that follow.
\<close>

theorem transfer_spec_slash_pairing:
  assumes "src \<noteq> []" "dst \<noteq> []" "CHR '':'' \<notin> set src" "CHR '':'' \<notin> set dst"
    and "add_transfers pre d0 = Inr d1"
  shows "((last src = CHR ''/'') \<noteq> (last dst = CHR ''/'') \<longrightarrow>
            add_transfers (pre @ (src @ '':'' @ dst) # post) d0
              = Inl (SysExit INVALID_TRANSFER_SPECIFICATION_ERROR
                       (invalid_spec_msg (src @ '':'' @ dst)))
            \<and> (refresh_token stg \<noteq> None \<longrightarrow>
                 transfer fuel env stg se de (pre @ (src @ '':'' @ dst) # post) lbl level pt vc
                     wt timeout interval attempts w
                   = Some (Inl (SysExit INVALID_TRANSFER_SPECIFICATION_ERROR
                                  (invalid_spec_msg (src @ '':'' @ dst))), w)))
       \<and> (last src = CHR ''/'' \<and> last dst = CHR ''/'' \<longrightarrow>
            add_transfers (pre @ (src @ '':'' @ dst) # post) d0
              = add_transfers post (add_item src dst True d1))
       \<and> (last src \<noteq> CHR ''/'' \<and> last dst \<noteq> CHR ''/'' \<longrightarrow>
            add_transfers (pre @ (src @ '':'' @ dst) # post) d0
              = add_transfers post (add_item src dst False d1))"
proof -
  let ?t = "src @ '':'' @ dst"
  let ?bad = "Inl (SysExit INVALID_TRANSFER_SPECIFICATION_ERROR (invalid_spec_msg ?t))"
  have step: "add_transfers (pre @ ?t # post) d = add_transfers (?t # post) d'"
    if "add_transfers pre d = Inr d'" for d d'
    using that by (rule add_transfers_append)
  have mixed: "add_transfers (pre @ ?t # post) d = ?bad"
    if "(last src = CHR ''/'') \<noteq> (last dst = CHR ''/'')" and "add_transfers pre d = Inr d'"
    for d d'
    unfolding step [OF that(2)] add_transfers_step [OF assms(1-4)] using that(1) by auto
  have cmd: "transfer fuel env stg se de (pre @ ?t # post) lbl level pt vc
                     wt timeout interval attempts w = Some (?bad, w)"
    if m: "(last src = CHR ''/'') \<noteq> (last dst = CHR ''/'')" and tok: "refresh_token stg \<noteq> None"
  proof -
    from add_transfers_same_verdict [of pre d0 "TransferData se de lbl level pt vc"] assms(5)
    obtain d' where "add_transfers pre (TransferData se de lbl level pt vc) = Inr d'" by auto
    from mixed [OF m this] tok show ?thesis
      by (auto intro: transfer_parse_failure)
  qed
  show ?thesis
    using mixed [OF _ assms(5)] cmd
    unfolding step [OF assms(5)] add_transfers_step [OF assms(1-4)]
    by auto
qed


theorem transfer_spec_slash_pairing_witness:
  "transfer 0 quiet_env \<lparr>refresh_token = Some ''tok''\<rparr> ''s'' ''d'' [''/a/:/b''] None ''checksum''
       True True False 60 10 1 empty_world
     = Some (Inl (SysExit INVALID_TRANSFER_SPECIFICATION_ERROR (invalid_spec_msg ''/a/:/b'')),
             empty_world)
   \<and> add_transfers [''/a/:/b/''] (TransferData ''s'' ''d'' None ''checksum'' True True)
     = Inr (add_item ''/a/'' ''/b/'' True (TransferData ''s'' ''d'' None ''checksum'' True True))
   \<and> add_transfers [''/a:/b''] (TransferData ''s'' ''d'' None ''checksum'' True True)
     = Inr (add_item ''/a'' ''/b'' False (TransferData ''s'' ''d'' None ''checksum'' True True))"
proof (intro conjI)
  let ?d = "TransferData ''s'' ''d'' None ''checksum'' True True"
  have pre: "add_transfers [] ?d = Inr ?d" by simp
  show "transfer 0 quiet_env \<lparr>refresh_token = Some ''tok''\<rparr> ''s'' ''d'' [''/a/:/b''] None
       ''checksum'' True True False 60 10 1 empty_world
     = Some (Inl (SysExit INVALID_TRANSFER_SPECIFICATION_ERROR (invalid_spec_msg ''/a/:/b'')),
             empty_world)"
    using transfer_spec_slash_pairing [where src = "''/a/''" and dst = "''/b''" and pre = "[]"
        and post = "[]" and stg = "\<lparr>refresh_token = Some ''tok''\<rparr>" and fuel = 0
        and env = quiet_env and se = "''s''" and de = "''d''" and lbl = None
        and level = "''checksum''" and pt = True and vc = True and wt = False and timeout = 60
        and interval = 10 and attempts = 1 and w = empty_world, OF _ _ _ _ pre]
    by simp
  show "add_transfers [''/a/:/b/''] ?d = Inr (add_item ''/a/'' ''/b/'' True ?d)"
    using transfer_spec_slash_pairing [where src = "''/a/''" and dst = "''/b/''" and pre = "[]"
        and post = "[]", OF _ _ _ _ pre]
    by simp
  show "add_transfers [''/a:/b''] ?d = Inr (add_item ''/a'' ''/b'' False ?d)"
    using transfer_spec_slash_pairing [where src = "''/a''" and dst = "''/b''" and pre = "[]"
        and post = "[]", OF _ _ _ _ pre]
    by simp
qed

subsection \<open>Specifications the parser cannot read\<close>

lemma split_on_two_iff:
  "(\<exists>a b. split_on c s = [a, b]) \<longleftrightarrow> count_list s c = 1"
proof -
  have "(\<exists>a b. split_on c s = [a, b]) \<longleftrightarrow> length (split_on c s) = 2"
    by (auto simp: length_Suc_conv numeral_2_eq_2)
  then show ?thesis by (simp add: split_on_length)
qed

lemma add_transfers_malformed:
  assumes "\<not> (\<exists>src dst. t = src @ '':'' @ dst \<and> src \<noteq> [] \<and> dst \<noteq> []
                \<and> CHR '':'' \<notin> set src \<and> CHR '':'' \<notin> set dst)"
  shows "add_transfers (t # ts) d =
           Inl (Raises (if count_list t CHR '':'' = 1 then IndexError else ValueError))"
proof (cases "count_list t CHR '':'' = 1")
  case True
  then obtain a b where ab: "split_on CHR '':'' t = [a, b]"
    using split_on_two_iff [of "CHR '':''" t] by auto
  from split_on_two_conv [OF ab] assms have "a = [] \<or> b = []" by auto
  then show ?thesis using True ab by auto
next
  case False
  then have "\<not> (\<exists>a b. split_on CHR '':'' t = [a, b])"
    using split_on_two_iff [of "CHR '':''" t] by simp
  then show ?thesis using False by (auto split: list.splits)
qed

lemma add_transfers_wellformed_not_raises:
  assumes "src \<noteq> []" "dst \<noteq> []" "CHR '':'' \<notin> set src" "CHR '':'' \<notin> set dst"
  shows "add_transfers [src @ '':'' @ dst] d \<noteq> Inl (Raises e)"
  unfolding add_transfers_step [OF assms] by simp

text \<open>
  Claim C10. The parser of transfer specifications reads only the strings that split at
  \<open>:\<close> into exactly two non-empty parts. After specifications \<open>pre\<close> that the loop
  accepted, a specification with no colon or with more than one ends the loop with
  \<open>ValueError\<close> (the two-way unpacking), one with an empty source or destination side
  with \<open>IndexError\<close> (the last character of an empty string); a specification ends the
  loop with an exception if and only if it is not of the two-part form, and the transfer
  command (with a refresh token) then ends with that exception and not with the exit
  \<open>INVALID_TRANSFER_SPECIFICATION_ERROR\<close>, the world untouched.
\<close>

theorem transfer_spec_parser_partial:
  assumes "add_transfers pre d0 = Inr d1"
  shows "(count_list t CHR '':'' \<noteq> 1 \<longrightarrow>
            add_transfers (pre @ t # post) d0 = Inl (Raises ValueError))
       \<and> (CHR '':'' \<notin> set src \<and> CHR '':'' \<notin> set dst \<and> (src = [] \<or> dst = []) \<longrightarrow>
            add_transfers (pre @ (src @ '':'' @ dst) # post) d0 = Inl (Raises IndexError))
       \<and> ((\<exists>e. add_transfers (pre @ [t]) d0 = Inl (Raises e)) \<longleftrightarrow>
            \<not> (\<exists>a b. t = a @ '':'' @ b \<and> a \<noteq> [] \<and> b \<noteq> []
                  \<and> CHR '':'' \<notin> set a \<and> CHR '':'' \<notin> set b))
       \<and> (\<not> (\<exists>a b. t = a @ '':'' @ b \<and> a \<noteq> [] \<and> b \<noteq> []
                  \<and> CHR '':'' \<notin> set a \<and> CHR '':'' \<notin> set b)
            \<and> refresh_token stg \<noteq> None \<longrightarrow>
            (\<exists>e. transfer fuel env stg se de (pre @ t # post) lbl level pt vc
                    wt timeout interval attempts w = Some (Inl (Raises e), w)))"
proof (intro conjI impI)
  have step: "add_transfers (pre @ ts) d0 = add_transfers ts d1" for ts
    using assms by (rule add_transfers_append)
  {
    assume c: "count_list t CHR '':'' \<noteq> 1"
    have "\<not> (\<exists>a b. t = a @ '':'' @ b \<and> a \<noteq> [] \<and> b \<noteq> []
                  \<and> CHR '':'' \<notin> set a \<and> CHR '':'' \<notin> set b)"
    proof
      assume "\<exists>a b. t = a @ '':'' @ b \<and> a \<noteq> [] \<and> b \<noteq> []
                  \<and> CHR '':'' \<notin> set a \<and> CHR '':'' \<notin> set b"
      then obtain a b where "t = a @ '':'' @ b" "CHR '':'' \<notin> set a" "CHR '':'' \<notin> set b"
        by blast
      then have "split_on CHR '':'' t = [a, b]" by (simp add: split_on_two)
      then have "count_list t CHR '':'' = 1" using split_on_two_iff [of "CHR '':''" t] by blast
      with c show False by simp
    qed
    from add_transfers_malformed [OF this] c
    show "add_transfers (pre @ t # post) d0 = Inl (Raises ValueError)"
      unfolding step by simp
  }
  {
    assume h: "CHR '':'' \<notin> set src \<and> CHR '':'' \<notin> set dst \<and> (src = [] \<or> dst = [])"
    then have "split_on CHR '':'' (src @ '':'' @ dst) = [src, dst]" by (simp add: split_on_two)
    with h show "add_transfers (pre @ (src @ '':'' @ dst) # post) d0 = Inl (Raises IndexError)"
      unfolding step by auto
  }
  show "(\<exists>e. add_transfers (pre @ [t]) d0 = Inl (Raises e)) \<longleftrightarrow>
            \<not> (\<exists>a b. t = a @ '':'' @ b \<and> a \<noteq> [] \<and> b \<noteq> []
                  \<and> CHR '':'' \<notin> set a \<and> CHR '':'' \<notin> set b)"
    unfolding step
    using add_transfers_malformed [of t "[]" d1] add_transfers_wellformed_not_raises [of _ _ d1]
    by (metis (no_types, lifting))
  {
    assume h: "\<not> (\<exists>a b. t = a @ '':'' @ b \<and> a \<noteq> [] \<and> b \<noteq> []
                  \<and> CHR '':'' \<notin> set a \<and> CHR '':'' \<notin> set b)
            \<and> refresh_token stg \<noteq> None"
    from add_transfers_same_verdict [of pre d0 "TransferData se de lbl level pt vc"] assms
    obtain d' where d': "add_transfers pre (TransferData se de lbl level pt vc) = Inr d'" by auto
    from h have nt: "\<not> (\<exists>a b. t = a @ '':'' @ b \<and> a \<noteq> [] \<and> b \<noteq> []
                  \<and> CHR '':'' \<notin> set a \<and> CHR '':'' \<notin> set b)" by blast
    have "add_transfers (pre @ t # post) (TransferData se de lbl level pt vc)
            = Inl (Raises (if count_list t CHR '':'' = 1 then IndexError else ValueError))"
      by (simp only: add_transfers_append [OF d'] add_transfers_malformed [OF nt])
    with h show "\<exists>e. transfer fuel env stg se de (pre @ t # post) lbl level pt vc
                    wt timeout interval attempts w = Some (Inl (Raises e), w)"
      by (auto intro: transfer_parse_failure)
  }
qed

theorem transfer_spec_parser_partial_witness:
  "transfer 0 quiet_env \<lparr>refresh_token = Some ''tok''\<rparr> ''s'' ''d'' [''/a:/b'', ''/c''] None
       ''checksum'' True True False 60 10 1 empty_world
     = Some (Inl (Raises ValueError), empty_world)
   \<and> add_transfers [''/a:/b'', ''/c:/d:/e''] (TransferData ''s'' ''d'' None ''checksum'' True True)
     = Inl (Raises ValueError)
   \<and> add_transfers [''/a:/b'', '':/d''] (TransferData ''s'' ''d'' None ''checksum'' True True)
     = Inl (Raises IndexError)
   \<and> add_transfers [''/a:/b'', ''/c/:''] (TransferData ''s'' ''d'' None ''checksum'' True True)
     = Inl (Raises IndexError)"
proof (intro conjI)
  let ?d = "TransferData ''s'' ''d'' None ''checksum'' True True"
  let ?d1 = "add_item ''/a'' ''/b'' False ?d"
  have pre: "add_transfers [''/a:/b''] ?d = Inr ?d1" by simp
  have nocolon: "\<not> (\<exists>a b. ''/c'' = a @ '':'' @ b \<and> a \<noteq> [] \<and> b \<noteq> []
                  \<and> CHR '':'' \<notin> set a \<and> CHR '':'' \<notin> set b)"
  proof
    assume "\<exists>a b. ''/c'' = a @ '':'' @ b \<and> a \<noteq> [] \<and> b \<noteq> []
                  \<and> CHR '':'' \<notin> set a \<and> CHR '':'' \<notin> set b"
    then obtain a b where "''/c'' = a @ '':'' @ b" by blast
    then have "CHR '':'' \<in> set ''/c''" by (metis append_Cons in_set_conv_decomp)
    then show False by simp
  qed
  have run: "transfer 0 quiet_env \<lparr>refresh_token = Some ''tok''\<rparr> ''s'' ''d'' [''/a:/b'', ''/c'']
       None ''checksum'' True True False 60 10 1 empty_world
     = Some (Inl (Raises ValueError), empty_world)"
    by (simp add: transfer_def get_transfer_client_or_exit_def TransferData_def)
  from transfer_spec_parser_partial [OF pre, where t = "''/c''" and post = "[]"
        and stg = "\<lparr>refresh_token = Some ''tok''\<rparr>" and fuel = 0
        and env = quiet_env and se = "''s''" and de = "''d''" and lbl = None
        and level = "''checksum''" and pt = True and vc = True and wt = False and timeout = 60
        and interval = 10 and attempts = 1 and w = empty_world] nocolon
  show "transfer 0 quiet_env \<lparr>refresh_token = Some ''tok''\<rparr> ''s'' ''d'' [''/a:/b'', ''/c'']
       None ''checksum'' True True False 60 10 1 empty_world
     = Some (Inl (Raises ValueError), empty_world)"
    by (simp add: run)
  show "add_transfers [''/a:/b'', ''/c:/d:/e''] ?d = Inl (Raises ValueError)"
    using transfer_spec_parser_partial [OF pre, where t = "''/c:/d:/e''" and post = "[]"] by simp
  show "add_transfers [''/a:/b'', '':/d''] ?d = Inl (Raises IndexError)"
    using transfer_spec_parser_partial [OF pre, where src = "[]" and dst = "''/d''"
        and post = "[]"] by simp
  show "add_transfers [''/a:/b'', ''/c/:''] ?d = Inl (Raises IndexError)"
    using transfer_spec_parser_partial [OF pre, where src = "''/c/''" and dst = "[]"
        and post = "[]"] by simp
qed


section \<open>Endpoint activation\<close>

subsection \<open>The transcript under the basic operations\<close>

lemma record_event_fields [simp]:
  "events (record_event e w) = e # events w"
  "queue (record_event e w) = queue w"
  "ads (record_event e w) = ads w"
  "current_cluster (record_event e w) = current_cluster w"
  by (simp_all add: record_event_def)

lemma get_or_exit_Some:
  "get_endpoint env (now w) e = Some info \<Longrightarrow>
   get_or_exit env e w = (Inr info, record_event (GetEndpoint e (Some info)) w)"
  by (simp add: get_or_exit_def)

lemma get_or_exit_None:
  "get_endpoint env (now w) e = None \<Longrightarrow>
   get_or_exit env e w = (Inl (SysExit ENDPOINT_INFO_ERROR e), record_event (GetEndpoint e None) w)"
  by (simp add: get_or_exit_def)

lemma get_or_exit_cases:
  obtains (ok) info where "get_or_exit env e w = (Inr info, record_event (GetEndpoint e (Some info)) w)"
      "get_endpoint env (now w) e = Some info"
  | (fail) "get_or_exit env e w = (Inl (SysExit ENDPOINT_INFO_ERROR e), record_event (GetEndpoint e None) w)"
      "get_endpoint env (now w) e = None"
  by (cases "get_endpoint env (now w) e") (auto simp: get_or_exit_def)

lemma record_event_update:
  "(record_event e w)\<lparr>events := xs @ events (record_event e w)\<rparr> = w\<lparr>events := xs @ e # events w\<rparr>"
  by (simp add: record_event_def)

lemma world_events_same [simp]: "w\<lparr>events := events w\<rparr> = w"
  by simp


subsection \<open>Automatic activation\<close>

lemma autoactivate_loop_eq:
  "autoactivate_loop env es un w =
     (un @ auto_rejected env (now w) es,
      w\<lparr>events := rev (map (\<lambda>(e, c). EndpointAutoactivate e c) (auto_answers env (now w) es))
                   @ events w\<rparr>)"
proof (induction es arbitrary: un w)
  case Nil
  show ?case by (simp add: auto_rejected_def)
next
  case (Cons e es)
  show ?case
    by (simp add: Cons.IH Let_def auto_rejected_def record_event_update)
qed

lemma activate_endpoints_automatically_eq:
  "activate_endpoints_automatically env es w =
     (auto_rejected env (now w) es,
      w\<lparr>events := rev (map (\<lambda>(e, c). EndpointAutoactivate e c) (auto_answers env (now w) es))
                   @ events w\<rparr>)"
  by (simp add: activate_endpoints_automatically_def autoactivate_loop_eq)

lemma map_fst_auto_answers [simp]: "map fst (auto_answers env n es) = es"
  by (induction es arbitrary: n) auto

lemma length_auto_answers [simp]: "length (auto_answers env n es) = length es"
  by (induction es arbitrary: n) auto

lemma map_fst_status_answers [simp]: "map fst (status_answers env n es) = es"
  by (induction es arbitrary: n) auto

lemma length_status_answers [simp]: "length (status_answers env n es) = length es"
  by (induction es arbitrary: n) auto

lemma auto_rejected_none:
  "\<forall>n e. endpoint_autoactivate env n e \<noteq> ''AutoActivationFailed'' \<Longrightarrow> auto_rejected env n es = []"
  by (induction es arbitrary: n) (auto simp: auto_rejected_def)

subsection \<open>Status queries over a list of endpoints\<close>

lemma unactivated_filter_eq:
  "\<forall>n e. get_endpoint env n e \<noteq> None \<Longrightarrow>
   unactivated_filter env es acc w =
     (Inr (acc @ reported_inactive env (now w) es),
      w\<lparr>events := rev (map (\<lambda>(e, r). GetEndpoint e r) (status_answers env (now w) es))
                   @ events w\<rparr>)"
proof (induction es arbitrary: acc w)
  case Nil
  show ?case by (simp add: reported_inactive_def)
next
  case (Cons e es)
  from Cons.prems have "get_endpoint env (now w) e \<noteq> None" by blast
  then obtain info where i: "get_endpoint env (now w) e = Some info" by blast
  show ?case
    using Cons.prems
    by (simp add: get_or_exit_Some [OF i] i Cons.IH reported_inactive_def record_event_update)
qed

lemma log_expirations_eq:
  "\<forall>n e. get_endpoint env n e \<noteq> None \<Longrightarrow>
   log_expirations env es w =
     (Inr (),
      w\<lparr>events := rev (map (\<lambda>(e, r). GetEndpoint e r) (status_answers env (now w) es))
                   @ events w\<rparr>)"
proof (induction es arbitrary: w)
  case Nil
  show ?case by simp
next
  case (Cons e es)
  from Cons.prems have "get_endpoint env (now w) e \<noteq> None" by blast
  then obtain info where i: "get_endpoint env (now w) e = Some info" by blast
  show ?case
    using Cons.prems
    by (simp add: get_or_exit_Some [OF i] i Cons.IH record_event_update)
qed

lemma activate_endpoints_manually_Nil [simp]:
  "activate_endpoints_manually fuel env [] w = Some (Inr [], w)"
  by (simp add: activate_endpoints_manually_def)

lemma status_query_answers:
  "map status_query (rev (map (\<lambda>(e, r). GetEndpoint e r) (status_answers env n es)))
     = rev (map Some es)"
  by (induction es arbitrary: n) auto


subsection \<open>Decimal numerals are distinct\<close>

declare str_nat.simps [simp del]

lemma digits_value_snoc: "digits_value (s @ [c]) = 10 * digits_value s + (of_char c - 48)"
  by (simp add: digits_value_def)

lemma digits_value_str_nat: "digits_value (str_nat n) = n"
proof (induction n rule: str_nat.induct)
  case (1 n)
  show ?case
  proof (cases "n < 10")
    case True
    then show ?thesis
      by (subst str_nat.simps) (simp add: digits_value_def)
  next
    case False
    have d: "of_char (char_of (48 + n mod 10) :: char) = 48 + n mod 10"
    proof -
      have "48 + n mod 10 < 256" by (simp add: less_le_trans [OF add_strict_left_mono [OF mod_less_divisor]])
      then show ?thesis by simp
    qed
    from False 1 have "digits_value (str_nat (n div 10)) = n div 10" by simp
    then show ?thesis using False
      by (subst str_nat.simps) (simp add: digits_value_snoc d)
  qed
qed

lemma str_nat_inj: "str_nat m = str_nat n \<Longrightarrow> m = n"
  by (metis digits_value_str_nat)

lemma activation_key_inj: "activation_key i = activation_key j \<Longrightarrow> i = j"
  by (simp add: activation_key_def str_nat_inj)

lemma distinct_activation_keys: "distinct (map activation_key [i..<j])"
  by (simp add: distinct_map inj_on_def activation_key_inj)


subsection \<open>Manual activation when no terminal is attached\<close>

lemma set_job_attr_fields [simp]:
  "events (set_job_attr key v None w) = SetJobAttr (current_cluster w) key v # events w"
  "events (set_job_attr key v (Some j) w) = SetJobAttr (job_cluster_id j) key v # events w"
  "ads (set_job_attr key v None w)
     = (ads w)(current_cluster w := AList.update key v (ads w (current_cluster w)))"
  "ads (set_job_attr key v (Some j) w)
     = (ads w)(job_cluster_id j := AList.update key v (ads w (job_cluster_id j)))"
  "queue (set_job_attr key v s w) = queue w"
  "current_cluster (set_job_attr key v s w) = current_cluster w"
  by (simp_all add: set_job_attr_def Let_def)

lemma now_set_job_attr [simp]: "now (set_job_attr key v s w) = Suc (now w)"
  by (simp add: set_job_attr_def Let_def now_def)

lemma manual_loop_deferred:
  assumes "\<not> is_interactive env" and "\<forall>n e. get_endpoint env n e \<noteq> None"
  shows "\<exists>w'. manual_loop fuel env idx es un w = Some (Inr (un @ es), w')
     \<and> events w' = rev (deferred_events env (current_cluster w) (now w) idx es) @ events w
     \<and> ads w' = (ads w)(current_cluster w := deferred_ad idx es (ads w (current_cluster w)))
     \<and> queue w' = queue w \<and> current_cluster w' = current_cluster w"
proof (induction es arbitrary: idx un w)
  case Nil
  show ?case by simp
next
  case (Cons e es)
  from assms(2) have "get_endpoint env (now w) e \<noteq> None" by blast
  then obtain info where i: "get_endpoint env (now w) e = Some info" by blast
  let ?w1 = "record_event (GetEndpoint e (Some info)) w"
  let ?w2 = "set_job_attr (activation_key idx) (StringValue e) None ?w1"
  from Cons.IH [of "idx + 1" "un @ [e]" ?w2] obtain w'
    where w': "manual_loop fuel env (idx + 1) es (un @ [e]) ?w2 = Some (Inr ((un @ [e]) @ es), w')"
      "events w' = rev (deferred_events env (current_cluster ?w2) (now ?w2) (idx + 1) es)
                     @ events ?w2"
      "ads w' = (ads ?w2)(current_cluster ?w2 :=
                   deferred_ad (idx + 1) es (ads ?w2 (current_cluster ?w2)))"
      "queue w' = queue ?w2" "current_cluster w' = current_cluster ?w2"
    by blast
  have run: "manual_loop fuel env idx (e # es) un w = Some (Inr (un @ e # es), w')"
    using assms(1) w'(1) by (simp add: get_or_exit_Some [OF i] Let_def)
  show ?case
    by (rule exI [of _ w']) (use run w'(2-) i in simp)
qed

lemma manual_deferred_returns_all:
  assumes "\<not> is_interactive env" and "\<forall>n e. get_endpoint env n e \<noteq> None"
  shows "\<exists>w'. activate_endpoints_manually fuel env es w = Some (Inr es, w')"
  using manual_loop_deferred [OF assms, of fuel 0 es "[]" w]
  by (auto simp: activate_endpoints_manually_def)

lemma deferred_ad_other:
  "k \<notin> activation_key ` {idx..<idx + length es} \<Longrightarrow>
   map_of (deferred_ad idx es ad) k = map_of ad k"
proof (induction es arbitrary: idx ad)
  case Nil
  show ?case by simp
next
  case (Cons e es)
  from Cons.prems have 1: "k \<notin> activation_key ` {idx + 1..<idx + 1 + length es}"
    and 2: "k \<noteq> activation_key idx" by auto
  show ?case using Cons.IH [OF 1] 2 by (simp add: update_conv')
qed

lemma deferred_ad_written:
  "i < length es \<Longrightarrow>
   map_of (deferred_ad idx es ad) (activation_key (idx + i)) = Some (StringValue (es ! i))"
proof (induction es arbitrary: idx ad i)
  case Nil
  then show ?case by simp
next
  case (Cons e es)
  show ?case
  proof (cases i)
    case 0
    have "activation_key idx \<notin> activation_key ` {idx + 1..<idx + 1 + length es}"
      by (auto dest: activation_key_inj)
    from deferred_ad_other [OF this] show ?thesis using 0 by (simp add: update_conv')
  next
    case (Suc j)
    with Cons.prems have "j < length es" by simp
    from Cons.IH [OF this, of "idx + 1"] show ?thesis using Suc by simp
  qed
qed

lemma attr_write_deferred:
  "List.map_filter attr_write (deferred_events env cid n idx es)
     = map (\<lambda>(i, e). (cid, activation_key i, StringValue e)) (List.enumerate idx es)"
  by (induction es arbitrary: n idx) (auto simp: List.map_filter_simps)

lemma new_events_append [simp]: "new_events w (w'\<lparr>events := xs @ events w\<rparr>) = xs"
  by (simp add: new_events_def)


lemma new_events_eq: "events w' = xs @ events w \<Longrightarrow> new_events w w' = xs"
  by (simp add: new_events_def)

text \<open>
  Claim C2 (amended). With no terminal attached and every status lookup answered, manual
  activation of \<open>N\<close> endpoints returns all \<open>N\<close> as still unresolved and makes exactly
  \<open>N\<close> attribute writes, all onto the current job record, under the \<open>N\<close> distinct names
  \<open>ENDPOINT_ACTIVATION_REQUIRED_0\<close> to \<open>ENDPOINT_ACTIVATION_REQUIRED_(N-1)\<close>: the index is
  the position of the endpoint in the list given, whatever the record already holds.
  Afterwards the record maps each of these names to its endpoint, every other name as
  before, and no other job record has changed.
\<close>

theorem manual_activation_deferred_writes:
  assumes "\<not> is_interactive env" and "\<forall>n e. get_endpoint env n e \<noteq> None"
  shows "\<exists>w'. activate_endpoints_manually fuel env endpoints w = Some (Inr endpoints, w')
     \<and> List.map_filter attr_write (rev (new_events w w'))
         = map (\<lambda>(i, e). (current_cluster w, activation_key i, StringValue e))
             (List.enumerate 0 endpoints)
     \<and> distinct (map activation_key [0..<length endpoints])
     \<and> (\<forall>i<length endpoints.
           map_of (ads w' (current_cluster w)) (activation_key i)
             = Some (StringValue (endpoints ! i)))
     \<and> (\<forall>k. k \<notin> activation_key ` {..<length endpoints} \<longrightarrow>
           map_of (ads w' (current_cluster w)) k = map_of (ads w (current_cluster w)) k)
     \<and> (\<forall>cid. cid \<noteq> current_cluster w \<longrightarrow> ads w' cid = ads w cid)"
proof -
  from manual_loop_deferred [OF assms, of fuel 0 endpoints "[]" w] obtain w'
    where w': "activate_endpoints_manually fuel env endpoints w = Some (Inr endpoints, w')"
      "events w' = rev (deferred_events env (current_cluster w) (now w) 0 endpoints) @ events w"
      "ads w' = (ads w)(current_cluster w :=
                   deferred_ad 0 endpoints (ads w (current_cluster w)))"
    by (auto simp: activate_endpoints_manually_def)
  have 1: "List.map_filter attr_write (rev (new_events w w'))
         = map (\<lambda>(i, e). (current_cluster w, activation_key i, StringValue e))
             (List.enumerate 0 endpoints)"
    by (simp add: new_events_eq [OF w'(2)] attr_write_deferred)
  have 2: "\<forall>i<length endpoints.
           map_of (ads w' (current_cluster w)) (activation_key i)
             = Some (StringValue (endpoints ! i))"
    using deferred_ad_written [of _ endpoints 0] by (simp add: w'(3))
  have 3: "\<forall>k. k \<notin> activation_key ` {..<length endpoints} \<longrightarrow>
           map_of (ads w' (current_cluster w)) k = map_of (ads w (current_cluster w)) k"
    using deferred_ad_other [of _ 0 endpoints] by (simp add: w'(3) lessThan_atLeast0)
  have 4: "\<forall>cid. cid \<noteq> current_cluster w \<longrightarrow> ads w' cid = ads w cid"
    by (simp add: w'(3))
  from w'(1) 1 2 3 4 distinct_activation_keys [of 0 "length endpoints"]
  show ?thesis by blast
qed

lemma deferred_env_simps [simp]:
  "is_interactive deferred_env = False"
  "get_endpoint deferred_env n e = Some (inactive_info e)"
  "endpoint_autoactivate deferred_env n e = ''AutoActivationFailed''"
  by (simp_all add: deferred_env_def quiet_env_def)

lemma activation_key_0: "activation_key 0 = ''ENDPOINT_ACTIVATION_REQUIRED_0''"
  by (simp add: activation_key_def ENDPOINT_ACTIVATION_REQUIRED_def str_nat.simps
        char_of_def bit_iff_odd)

lemma activation_key_1: "activation_key (Suc 0) = ''ENDPOINT_ACTIVATION_REQUIRED_1''"
  by (simp add: activation_key_def ENDPOINT_ACTIVATION_REQUIRED_def str_nat.simps
        char_of_def bit_iff_odd)

theorem manual_activation_deferred_writes_witness:
  "\<exists>w'. activate_endpoints_manually 0 deferred_env [''src'', ''dst''] empty_world
           = Some (Inr [''src'', ''dst''], w')
        \<and> List.map_filter attr_write (rev (new_events empty_world w'))
            = [(0, ''ENDPOINT_ACTIVATION_REQUIRED_0'', StringValue ''src''),
               (0, ''ENDPOINT_ACTIVATION_REQUIRED_1'', StringValue ''dst'')]
        \<and> map_of (ads w' 0) ''ENDPOINT_ACTIVATION_REQUIRED_0'' = Some (StringValue ''src'')
        \<and> map_of (ads w' 0) ''ENDPOINT_ACTIVATION_REQUIRED_1'' = Some (StringValue ''dst'')"
proof -
  have a: "\<not> is_interactive deferred_env" by simp
  have b: "\<forall>n e. get_endpoint deferred_env n e \<noteq> None" by simp
  have c: "current_cluster empty_world = 0" by (simp add: empty_world_def)
  from manual_activation_deferred_writes [OF a b, of 0 "[''src'', ''dst'']" empty_world]
  obtain w' where w':
    "activate_endpoints_manually 0 deferred_env [''src'', ''dst''] empty_world
       = Some (Inr [''src'', ''dst''], w')"
    "List.map_filter attr_write (rev (new_events empty_world w'))
       = map (\<lambda>(i, e). (current_cluster empty_world, activation_key i, StringValue e))
           (List.enumerate 0 [''src'', ''dst''])"
    "\<forall>i<length [''src'', ''dst''].
        map_of (ads w' (current_cluster empty_world)) (activation_key i)
          = Some (StringValue ([''src'', ''dst''] ! i))"
    by (elim exE conjE)
  from w'(3) [rule_format, of 0] w'(3) [rule_format, of "Suc 0"]
  have "map_of (ads w' 0) ''ENDPOINT_ACTIVATION_REQUIRED_0'' = Some (StringValue ''src'')"
    "map_of (ads w' 0) ''ENDPOINT_ACTIVATION_REQUIRED_1'' = Some (StringValue ''dst'')"
    by (simp_all add: c activation_key_0 activation_key_1)
  moreover from w'(2)
  have "List.map_filter attr_write (rev (new_events empty_world w'))
            = [(0, ''ENDPOINT_ACTIVATION_REQUIRED_0'', StringValue ''src''),
               (0, ''ENDPOINT_ACTIVATION_REQUIRED_1'', StringValue ''dst'')]"
    by (simp add: c activation_key_0 activation_key_1)
  ultimately show ?thesis using w'(1) by (intro exI [of _ w'] conjI)
qed

text \<open>
  Claim C2 as stated fails: the index does not avoid the attributes already on the
  record. A record that holds \<open>ENDPOINT_ACTIVATION_REQUIRED_0\<close> for an endpoint \<open>old\<close>
  has that attribute overwritten by the first endpoint of the next call.
\<close>

theorem manual_activation_index_collides:
  "ads stale_world (current_cluster stale_world)
     = [(''ENDPOINT_ACTIVATION_REQUIRED_0'', StringValue ''old'')]
   \<and> activate_endpoints_manually 0 deferred_env [''new''] stale_world
     = Some (Inr [''new''],
         stale_world\<lparr>events :=
            [SetJobAttr 0 ''ENDPOINT_ACTIVATION_REQUIRED_0'' (StringValue ''new''),
             GetEndpoint ''new'' (Some (inactive_info ''new''))],
           ads := (ads stale_world)
                    (0 := [(''ENDPOINT_ACTIVATION_REQUIRED_0'', StringValue ''new'')])\<rparr>)"
  by (simp add: activate_endpoints_manually_def get_or_exit_def Let_def set_job_attr_def
        record_event_def stale_world_def empty_world_def activation_key_0 now_def)


subsection \<open>The activation orchestrator when automatic activation settles everything\<close>

lemma or_exit_auto_settles:
  assumes look: "\<forall>n e. get_endpoint env n e \<noteq> None"
    and none: "auto_rejected env (now w + length endpoints)
                 (reported_inactive env (now w) endpoints) = []"
  shows "\<exists>w'. activate_endpoints_or_exit fuel env endpoints w = Some (Inr True, w')
     \<and> events w' =
         rev (map (\<lambda>(e, r). GetEndpoint e r)
                (status_answers env
                   (now w + length endpoints
                      + length (reported_inactive env (now w) endpoints)) endpoints))
         @ rev (map (\<lambda>(e, c). EndpointAutoactivate e c)
                  (auto_answers env (now w + length endpoints)
                     (reported_inactive env (now w) endpoints)))
         @ rev (map (\<lambda>(e, r). GetEndpoint e r) (status_answers env (now w) endpoints))
         @ events w
     \<and> queue w' = queue w \<and> ads w' = ads w \<and> current_cluster w' = current_cluster w"
proof -
  define un1 where "un1 = reported_inactive env (now w) endpoints"
  define w1 where "w1 = w\<lparr>events := rev (map (\<lambda>(e, r). GetEndpoint e r)
                 (status_answers env (now w) endpoints)) @ events w\<rparr>"
  define w2 where "w2 = w1\<lparr>events := rev (map (\<lambda>(e, c). EndpointAutoactivate e c)
                 (auto_answers env (now w1) un1)) @ events w1\<rparr>"
  define w4 where "w4 = w2\<lparr>events := rev (map (\<lambda>(e, r). GetEndpoint e r)
                 (status_answers env (now w2) endpoints)) @ events w2\<rparr>"
  have n1: "now w1 = now w + length endpoints" by (simp add: now_def w1_def)
  have n2: "now w2 = now w + length endpoints + length un1" by (simp add: now_def w2_def w1_def)
  have f: "unactivated_filter env endpoints [] w = (Inr un1, w1)"
    using unactivated_filter_eq [OF look, of endpoints "[]" w] by (simp add: un1_def w1_def)
  have a: "activate_endpoints_automatically env un1 w1 = ([], w2)"
    using none by (simp only: activate_endpoints_automatically_eq n1 un1_def [symmetric] w2_def)
  have l: "log_expirations env endpoints w2 = (Inr (), w4)"
    unfolding w4_def by (rule log_expirations_eq [OF look])
  have run: "activate_endpoints_or_exit fuel env endpoints w = Some (Inr True, w4)"
    unfolding activate_endpoints_or_exit_def by (simp add: f a l)
  have ev: "events w4 =
         rev (map (\<lambda>(e, r). GetEndpoint e r)
                (status_answers env (now w + length endpoints + length un1) endpoints))
         @ rev (map (\<lambda>(e, c). EndpointAutoactivate e c)
                  (auto_answers env (now w + length endpoints) un1))
         @ rev (map (\<lambda>(e, r). GetEndpoint e r) (status_answers env (now w) endpoints))
         @ events w"
    unfolding w4_def n2 by (simp add: w2_def n1) (simp add: w1_def)
  have fr: "queue w4 = queue w \<and> ads w4 = ads w \<and> current_cluster w4 = current_cluster w"
    by (simp add: w4_def w2_def w1_def)
  show ?thesis
    by (rule exI [of _ w4]) (use run ev fr in \<open>simp add: un1_def\<close>)
qed

text \<open>
  Claim C8 (amended). The automatic step makes exactly one auto-activation call for every
  endpoint of the remaining list, in order, and returns the endpoints whose call was
  answered \<open>AutoActivationFailed\<close>. Every other endpoint counts as resolved with no
  further check: when every lookup is answered and no call is rejected the orchestrator
  reports success, and what it does before that is one fresh status query per endpoint,
  whose answer (active or not) has no part in the outcome.
\<close>

theorem auto_activation_step:
  "activate_endpoints_automatically env endpoints w =
      (auto_rejected env (now w) endpoints,
       w\<lparr>events := rev (map (\<lambda>(e, c). EndpointAutoactivate e c)
                          (auto_answers env (now w) endpoints)) @ events w\<rparr>)
   \<and> map fst (auto_answers env (now w) endpoints) = endpoints
   \<and> ((\<forall>n e. get_endpoint env n e \<noteq> None)
        \<and> auto_rejected env (now w + length endpoints)
             (reported_inactive env (now w) endpoints) = [] \<longrightarrow>
        (\<exists>w' fresh older.
            activate_endpoints_or_exit fuel env endpoints w = Some (Inr True, w')
            \<and> events w' = fresh @ older
            \<and> map status_query fresh = rev (map Some endpoints)))"
proof (intro conjI impI)
  show "activate_endpoints_automatically env endpoints w =
      (auto_rejected env (now w) endpoints,
       w\<lparr>events := rev (map (\<lambda>(e, c). EndpointAutoactivate e c)
                          (auto_answers env (now w) endpoints)) @ events w\<rparr>)"
    by (rule activate_endpoints_automatically_eq)
  show "map fst (auto_answers env (now w) endpoints) = endpoints" by simp
next
  assume h: "(\<forall>n e. get_endpoint env n e \<noteq> None)
        \<and> auto_rejected env (now w + length endpoints)
             (reported_inactive env (now w) endpoints) = []"
  from or_exit_auto_settles [of env w endpoints fuel] h obtain w' where
    w': "activate_endpoints_or_exit fuel env endpoints w = Some (Inr True, w')"
    "events w' =
         rev (map (\<lambda>(e, r). GetEndpoint e r)
                (status_answers env
                   (now w + length endpoints
                      + length (reported_inactive env (now w) endpoints)) endpoints))
         @ rev (map (\<lambda>(e, c). EndpointAutoactivate e c)
                  (auto_answers env (now w + length endpoints)
                     (reported_inactive env (now w) endpoints)))
         @ rev (map (\<lambda>(e, r). GetEndpoint e r) (status_answers env (now w) endpoints))
         @ events w"
    by blast
  show "\<exists>w' fresh older.
            activate_endpoints_or_exit fuel env endpoints w = Some (Inr True, w')
            \<and> events w' = fresh @ older
            \<and> map status_query fresh = rev (map Some endpoints)"
    using w' status_query_answers by blast
qed

lemma unverified_env_simps [simp]:
  "is_interactive unverified_env = False"
  "get_endpoint unverified_env n e = Some (inactive_info e)"
  "endpoint_autoactivate unverified_env n e = ''AutoActivated.CachedCredential''"
  by (simp_all add: unverified_env_def deferred_env_def quiet_env_def)

theorem auto_activation_step_witness:
  "activate_endpoints_automatically deferred_env [''a'', ''b''] empty_world =
     ([''a'', ''b''],
      empty_world\<lparr>events := [EndpointAutoactivate ''b'' ''AutoActivationFailed'',
                             EndpointAutoactivate ''a'' ''AutoActivationFailed'']\<rparr>)
   \<and> (\<exists>w'. activate_endpoints_or_exit 0 unverified_env [''a''] empty_world = Some (Inr True, w'))"
proof -
  have 1: "auto_rejected unverified_env n es = []" for n es
    by (rule auto_rejected_none) simp
  from auto_activation_step [of deferred_env "[''a'', ''b'']" empty_world]
  have a: "activate_endpoints_automatically deferred_env [''a'', ''b''] empty_world =
     ([''a'', ''b''],
      empty_world\<lparr>events := [EndpointAutoactivate ''b'' ''AutoActivationFailed'',
                             EndpointAutoactivate ''a'' ''AutoActivationFailed'']\<rparr>)"
    by (simp add: auto_rejected_def empty_world_def now_def)
  from auto_activation_step [of unverified_env "[''a'']" empty_world 0]
  have b: "\<exists>w'. activate_endpoints_or_exit 0 unverified_env [''a''] empty_world
              = Some (Inr True, w')"
    by (auto simp: 1)
  from a b show ?thesis by blast
qed

text \<open>
  Claim C8 as stated fails in its last part: an endpoint whose auto-activation was
  accepted is not verified to be active. Here the endpoint reports inactive before and
  after an accepted auto-activation, and the orchestrator reports success.
\<close>

theorem auto_accepted_not_reverified:
  "activate_endpoints_or_exit 0 unverified_env [''ep''] empty_world
     = Some (Inr True,
         empty_world\<lparr>events :=
           [GetEndpoint ''ep'' (Some (inactive_info ''ep'')),
            EndpointAutoactivate ''ep'' ''AutoActivated.CachedCredential'',
            GetEndpoint ''ep'' (Some (inactive_info ''ep''))]\<rparr>)
   \<and> is_active (inactive_info ''ep'') = False"
  by (simp add: activate_endpoints_or_exit_def get_or_exit_def Let_def
        activate_endpoints_automatically_def record_event_def empty_world_def now_def
        inactive_info_def)


subsection \<open>What each step of the activation adds to the transcript\<close>




lemma confirm_loop_transcript:
  "confirm_loop fuel env x w = Some (r, w') \<Longrightarrow>
   \<exists>new. events w' = new @ events w
     \<and> (case r of
          Inl f \<Rightarrow> f = Aborted \<or> f = SysExit ENDPOINT_INFO_ERROR x
        | Inr u \<Rightarrow> list_ex (reports_active x) new)"
proof (induction fuel arbitrary: w)
  case 0
  then show ?case by simp
next
  case (Suc fuel)
  show ?case
  proof (cases rule: get_or_exit_cases [of env x w])
    case (ok info)
    let ?w1 = "record_event (GetEndpoint x (Some info)) w"
    show ?thesis
    proof (cases "is_active info")
      case True
      with Suc.prems ok show ?thesis
        by (intro exI [of _ "[GetEndpoint x (Some info)]"]) auto
    next
      case False
      let ?ok = "confirm env (now ?w1)"
      let ?w2 = "record_event (Confirm ?ok) ?w1"
      show ?thesis
      proof (cases ?ok)
        case True
        with Suc.prems ok False have "confirm_loop fuel env x ?w2 = Some (r, w')"
          by (simp add: Let_def)
        from Suc.IH [OF this] obtain new where new: "events w' = new @ events ?w2"
          "case r of
              Inl f \<Rightarrow> f = Aborted \<or> f = SysExit ENDPOINT_INFO_ERROR x
            | Inr u \<Rightarrow> list_ex (reports_active x) new"
          by blast
        show ?thesis
          by (rule exI [of _ "new @ [Confirm ?ok, GetEndpoint x (Some info)]"])
             (use new in \<open>auto split: sum.splits\<close>)
      next
        case no: False
        with Suc.prems ok False show ?thesis
          by (intro exI [of _ "[Confirm ?ok, GetEndpoint x (Some info)]"])
             (auto simp: Let_def)
      qed
    qed
  next
    case fail
    with Suc.prems show ?thesis
      by (intro exI [of _ "[GetEndpoint x None]"]) auto
  qed
qed


lemma manual_loop_transcript:
  "manual_loop fuel env idx es un w = Some (r, w') \<Longrightarrow>
   \<exists>new. events w' = new @ events w
     \<and> (case r of
          Inl f \<Rightarrow> f = Aborted \<or> (\<exists>e. f = SysExit ENDPOINT_INFO_ERROR e)
        | Inr un' \<Rightarrow>
            if is_interactive env
            then un' = un \<and> (\<forall>e\<in>set es. list_ex (reports_active e) new)
            else un' = un @ es)"
proof (induction es arbitrary: idx un w)
  case Nil
  then show ?case by (intro exI [of _ "[]"]) auto
next
  case (Cons x xs)
  show ?case
  proof (cases rule: get_or_exit_cases [of env x w])
    case (ok info)
    let ?w1 = "record_event (GetEndpoint x (Some info)) w"
    show ?thesis
    proof (cases "is_interactive env")
      case True
      show ?thesis
      proof (cases "confirm_loop fuel env x ?w1")
        case None
        with Cons.prems ok True show ?thesis by simp
      next
        case (Some p)
        obtain r1 w2 where p: "p = (r1, w2)" by (cases p)
        from confirm_loop_transcript [OF Some [unfolded p]] obtain new1
          where new1: "events w2 = new1 @ events ?w1"
            "case r1 of
               Inl f \<Rightarrow> f = Aborted \<or> f = SysExit ENDPOINT_INFO_ERROR x
             | Inr u \<Rightarrow> list_ex (reports_active x) new1"
          by blast
        show ?thesis
        proof (cases r1)
          case (Inl f)
          with Cons.prems ok True Some p have "r = Inl f" "w' = w2" by simp_all
          with new1 Inl show ?thesis
            by (intro exI [of _ "new1 @ [GetEndpoint x (Some info)]"]) auto
        next
          case (Inr u)
          with Cons.prems ok True Some p
          have "manual_loop fuel env (idx + 1) xs un w2 = Some (r, w')" by simp
          from Cons.IH [OF this] obtain new where new: "events w' = new @ events w2"
            "case r of
               Inl f \<Rightarrow> f = Aborted \<or> (\<exists>e. f = SysExit ENDPOINT_INFO_ERROR e)
             | Inr un' \<Rightarrow>
                 if is_interactive env
                 then un' = un \<and> (\<forall>e\<in>set xs. list_ex (reports_active e) new)
                 else un' = un @ xs"
            by blast
          show ?thesis
            by (rule exI [of _ "new @ new1 @ [GetEndpoint x (Some info)]"])
               (use new new1 Inr True in \<open>auto split: sum.splits\<close>)
        qed
      qed
    next
      case False
      let ?w2 = "set_job_attr (activation_key idx) (StringValue x) None ?w1"
      from Cons.prems ok False
      have "manual_loop fuel env (idx + 1) xs (un @ [x]) ?w2 = Some (r, w')"
        by (simp add: Let_def)
      from Cons.IH [OF this] obtain new where new: "events w' = new @ events ?w2"
        "case r of
           Inl f \<Rightarrow> f = Aborted \<or> (\<exists>e. f = SysExit ENDPOINT_INFO_ERROR e)
         | Inr un' \<Rightarrow>
             if is_interactive env
             then un' = un @ [x] \<and> (\<forall>e\<in>set xs. list_ex (reports_active e) new)
             else un' = (un @ [x]) @ xs"
        by blast
      show ?thesis
        by (rule exI [of _ "new @ [SetJobAttr (current_cluster w) (activation_key idx)
               (StringValue x), GetEndpoint x (Some info)]"])
           (use new False in \<open>auto split: sum.splits\<close>)
    qed
  next
    case fail
    with Cons.prems show ?thesis
      by (intro exI [of _ "[GetEndpoint x None]"]) auto
  qed
qed




subsection \<open>Outcomes of the activation orchestrator\<close>





lemma reported_inactive_all_active:
  "\<forall>n. \<forall>e\<in>set es. \<exists>info. get_endpoint env n e = Some info \<and> is_active info \<Longrightarrow>
   reported_inactive env n es = []"
proof (induction es arbitrary: n)
  case Nil
  show ?case by (simp add: reported_inactive_def)
next
  case (Cons e es)
  from Cons.prems obtain info where "get_endpoint env n e = Some info" "is_active info" by auto
  moreover from Cons.prems have "reported_inactive env (Suc n) es = []"
    by (intro Cons.IH) simp
  ultimately show ?case by (simp add: reported_inactive_def)
qed




lemma active_env_simps [simp]:
  "is_interactive active_env = False"
  "get_endpoint active_env n e = Some (active_info e)"
  by (simp_all add: active_env_def quiet_env_def)

lemma abort_env_simps [simp]:
  "is_interactive abort_env = True"
  "get_endpoint abort_env n e = Some (inactive_info e)"
  "endpoint_autoactivate abort_env n e = ''AutoActivationFailed''"
  "confirm abort_env n = False"
  by (simp_all add: abort_env_def deferred_env_def quiet_env_def)

lemma info_simps [simp]:
  "is_active (active_info e) = True"
  "is_active (inactive_info e) = False"
  by (simp_all add: active_info_def inactive_info_def)





section \<open>The release command\<close>

subsection \<open>Releases and job attributes under each step\<close>

lemma releases_record_event:
  "releases (record_event e w)
     = releases w @ (case schedd_released e of None \<Rightarrow> [] | Some c \<Rightarrow> [c])"
  by (simp add: releases_def List.map_filter_def split: option.splits)

lemma releases_other_fields [simp]:
  "releases (w\<lparr>ads := a\<rparr>) = releases w"
  "releases (w\<lparr>queue := q\<rparr>) = releases w"
  by (simp_all add: releases_def)

lemma get_or_exit_frame:
  "get_or_exit env e w = (r, w') \<Longrightarrow>
   releases w' = releases w \<and> ads w' = ads w \<and> queue w' = queue w
   \<and> current_cluster w' = current_cluster w"
  by (cases rule: get_or_exit_cases [of env e w]) (auto simp: releases_record_event)

lemma confirm_loop_frame:
  "confirm_loop fuel env x w = Some (r, w') \<Longrightarrow>
   releases w' = releases w \<and> ads w' = ads w \<and> queue w' = queue w
   \<and> current_cluster w' = current_cluster w"
proof (induction fuel arbitrary: w)
  case 0
  then show ?case by simp
next
  case (Suc fuel)
  obtain r1 w1 where g: "get_or_exit env x w = (r1, w1)" by (cases "get_or_exit env x w")
  note fr = get_or_exit_frame [OF g]
  show ?case
  proof (cases r1)
    case (Inl f)
    with Suc.prems g fr show ?thesis by auto
  next
    case (Inr info)
    show ?thesis
    proof (cases "is_active info \<or> \<not> confirm env (now w1)")
      case True
      with Suc.prems g Inr fr show ?thesis
        by (auto simp: Let_def releases_record_event split: if_splits)
    next
      case False
      with Suc.prems g Inr
      have "confirm_loop fuel env x (record_event (Confirm True) w1) = Some (r, w')"
        by (simp add: Let_def)
      from Suc.IH [OF this] fr show ?thesis by (simp add: releases_record_event)
    qed
  qed
qed

lemma releases_set_job_attr [simp]: "releases (set_job_attr k v s w) = releases w"
  by (simp add: set_job_attr_def Let_def releases_record_event)

lemma manual_loop_frame:
  "manual_loop fuel env idx es un w = Some (r, w') \<Longrightarrow>
   releases w' = releases w \<and> queue w' = queue w \<and> current_cluster w' = current_cluster w
   \<and> (is_interactive env \<longrightarrow> ads w' = ads w)"
proof (induction es arbitrary: idx un w)
  case Nil
  then show ?case by simp
next
  case (Cons x xs)
  obtain r1 w1 where g: "get_or_exit env x w = (r1, w1)" by (cases "get_or_exit env x w")
  note fr = get_or_exit_frame [OF g]
  show ?case
  proof (cases r1)
    case (Inl f)
    with Cons.prems g fr show ?thesis by auto
  next
    case (Inr info)
    show ?thesis
    proof (cases "is_interactive env")
      case True
      show ?thesis
      proof (cases "confirm_loop fuel env x w1")
        case None
        with Cons.prems g Inr True show ?thesis by simp
      next
        case (Some p)
        obtain r2 w2 where p: "p = (r2, w2)" by (cases p)
        note fc = confirm_loop_frame [OF Some [unfolded p]]
        show ?thesis
        proof (cases r2)
          case (Inl f)
          with Cons.prems g Inr True Some p fr fc show ?thesis by auto
        next
          case r2: (Inr u)
          with Cons.prems g Inr True Some p
          have "manual_loop fuel env (idx + 1) xs un w2 = Some (r, w')" by simp
          from Cons.IH [OF this] fr fc show ?thesis by simp
        qed
      qed
    next
      case False
      let ?w2 = "set_job_attr (activation_key idx) (StringValue x) None w1"
      from Cons.prems g Inr False
      have "manual_loop fuel env (idx + 1) xs (un @ [x]) ?w2 = Some (r, w')"
        by (simp add: Let_def)
      from Cons.IH [OF this] fr False show ?thesis by simp
    qed
  qed
qed

lemma reset_attrs_events:
  "events (reset_attrs ks j w)
     = rev (map (\<lambda>k. SetJobAttr (job_cluster_id j) k Undefined) ks) @ events w"
  by (induction ks arbitrary: w) auto

lemma reset_attrs_frame [simp]:
  "releases (reset_attrs ks j w) = releases w"
  "queue (reset_attrs ks j w) = queue w"
  "current_cluster (reset_attrs ks j w) = current_cluster w"
  by (induction ks arbitrary: w) auto

lemma reset_attrs_other_job:
  "cid \<noteq> job_cluster_id j \<Longrightarrow> ads (reset_attrs ks j w) cid = ads w cid"
  by (induction ks arbitrary: w) auto

lemma reset_attrs_other_key:
  "k \<notin> set ks \<Longrightarrow>
   map_of (ads (reset_attrs ks j w) (job_cluster_id j)) k = map_of (ads w (job_cluster_id j)) k"
  by (induction ks arbitrary: w) (auto simp: update_conv')

lemma reset_attrs_key:
  "k \<in> set ks \<Longrightarrow> map_of (ads (reset_attrs ks j w) (job_cluster_id j)) k = Some Undefined"
proof (induction ks arbitrary: w)
  case Nil
  then show ?case by simp
next
  case (Cons a ks)
  show ?case
  proof (cases "k \<in> set ks")
    case True
    from Cons.IH [OF this] show ?thesis by simp
  next
    case False
    with Cons.prems have "k = a" by simp
    with reset_attrs_other_key [OF False] show ?thesis by (simp add: update_conv')
  qed
qed

lemma schedd_release_fields [simp]:
  "events (schedd_release cid w) = ScheddRelease cid # events w"
  "ads (schedd_release cid w) = ads w"
  "current_cluster (schedd_release cid w) = current_cluster w"
  "releases (schedd_release cid w) = releases w @ [cid]"
  by (simp_all add: schedd_release_def releases_record_event)


subsection \<open>The scan of the release command\<close>

lemma release_loop_step_plain:
  "manual_endpoints_of (job_items j) = [] \<Longrightarrow>
   release_loop fuel env stg (j # js) w
     = release_loop fuel env stg js (schedd_release (job_cluster_id j) w)"
  by (simp add: Let_def)

lemma release_loop_step_no_token:
  "manual_endpoints_of (job_items j) \<noteq> [] \<Longrightarrow> refresh_token stg = None \<Longrightarrow>
   release_loop fuel env stg (j # js) w
     = Some (Inl (SysExit AUTHORIZATION_ERROR
                   (''Was not able to find a refresh token; have you run '' @ [CHR 0x27] @
                    ''globus login'' @ [CHR 0x27] @ ''?'')), w)"
  by (simp add: Let_def get_transfer_client_or_exit_def)

lemma release_loop_step_manual:
  "manual_endpoints_of (job_items j) \<noteq> [] \<Longrightarrow> refresh_token stg \<noteq> None \<Longrightarrow>
   release_loop fuel env stg (j # js) w
     = (case activate_endpoints_manually fuel env
               (map fst (manual_endpoints_of (job_items j))) w of
          None \<Rightarrow> None
        | Some (Inl f, w1) \<Rightarrow> Some (Inl f, w1)
        | Some (Inr unactivated, w1) \<Rightarrow>
            release_loop fuel env stg js
              (schedd_release (job_cluster_id j)
                 (reset_attrs (map snd (manual_endpoints_of (job_items j))) j w1)))"
  by (auto simp add: Let_def get_transfer_client_or_exit_def)

declare release_loop.simps(2) [simp del]

lemma release_loop_releases:
  "release_loop fuel env stg js w = Some (Inr u, w') \<Longrightarrow>
   releases w' = releases w @ map job_cluster_id js"
proof (induction js arbitrary: w)
  case Nil
  then show ?case by simp
next
  case (Cons j js)
  show ?case
  proof (cases "manual_endpoints_of (job_items j) = []")
    case True
    from Cons.prems have "release_loop fuel env stg js (schedd_release (job_cluster_id j) w)
        = Some (Inr u, w')"
      by (simp add: release_loop_step_plain [OF True])
    from Cons.IH [OF this] show ?thesis by simp
  next
    case False
    show ?thesis
    proof (cases "refresh_token stg = None")
      case True
      with Cons.prems False show ?thesis by (simp add: release_loop_step_no_token)
    next
      case tok: False
      let ?m = "activate_endpoints_manually fuel env
                  (map fst (manual_endpoints_of (job_items j))) w"
      from Cons.prems obtain un w1 where m: "?m = Some (Inr un, w1)"
        and rest: "release_loop fuel env stg js
              (schedd_release (job_cluster_id j)
                 (reset_attrs (map snd (manual_endpoints_of (job_items j))) j w1))
            = Some (Inr u, w')"
        by (auto simp: release_loop_step_manual [OF False tok]
              split: option.splits sum.splits prod.splits)
      from manual_loop_frame [OF m [unfolded activate_endpoints_manually_def]]
      have "releases w1 = releases w" by simp
      with Cons.IH [OF rest] show ?thesis by simp
    qed
  qed
qed

lemma release_loop_deferred_total:
  assumes "\<not> is_interactive env" and "refresh_token stg \<noteq> None"
    and "\<forall>n e. get_endpoint env n e \<noteq> None"
  shows "\<exists>w'. release_loop fuel env stg js w = Some (Inr (), w')"
proof (induction js arbitrary: w)
  case Nil
  show ?case by simp
next
  case (Cons j js)
  show ?case
  proof (cases "manual_endpoints_of (job_items j) = []")
    case True
    from Cons.IH show ?thesis by (simp add: release_loop_step_plain [OF True])
  next
    case False
    from manual_deferred_returns_all [OF assms(1,3)] obtain w1 where
      "activate_endpoints_manually fuel env (map fst (manual_endpoints_of (job_items j))) w
         = Some (Inr (map fst (manual_endpoints_of (job_items j))), w1)"
      by blast
    with Cons.IH show ?thesis
      by (simp add: release_loop_step_manual [OF False assms(2)])
  qed
qed

lemma get_globus_jobs_ids:
  "map job_cluster_id (get_globus_jobs w) = map cluster_id (filter is_globus_job (queue w))"
  by (simp add: get_globus_jobs_def comp_def)


lemma release_def_releases:
  "release fuel env stg w = Some (Inr u, w') \<Longrightarrow>
   releases w' = releases w @ map cluster_id (filter is_globus_job (queue w))"
  using release_loop_releases [of fuel env stg "get_globus_jobs w" w u w']
  by (simp add: release_def get_globus_jobs_ids)

text \<open>
  Claim C3 (amended; \<open>get_globus_jobs\<close> modelled from the spec). The release command
  processes every job record owned by this tool, held or not, in the order of the
  listing: a scan that completes has told the scheduler to release each of them, once.
  For each job the release follows with no condition: at once when the record lists no
  endpoint, and otherwise after manual activation has returned, whatever list of
  unresolved endpoints it returned.
\<close>

theorem release_processes_every_owned_job:
  "(release fuel env stg w = Some (Inr u, w') \<longrightarrow>
      releases w' = releases w @ map cluster_id (filter is_globus_job (queue w)))
   \<and> (manual_endpoints_of (job_items j) = [] \<longrightarrow>
        release_loop fuel env stg (j # js) w
          = release_loop fuel env stg js (schedd_release (job_cluster_id j) w))
   \<and> (manual_endpoints_of (job_items j) \<noteq> [] \<and> refresh_token stg \<noteq> None
        \<and> activate_endpoints_manually fuel env
             (map fst (manual_endpoints_of (job_items j))) w = Some (Inr unactivated, w1) \<longrightarrow>
        release_loop fuel env stg (j # js) w
          = release_loop fuel env stg js
              (schedd_release (job_cluster_id j)
                 (reset_attrs (map snd (manual_endpoints_of (job_items j))) j w1)))"
  using release_def_releases [of fuel env stg w u w']
    release_loop_step_plain [of j fuel env stg js w]
    release_loop_step_manual [of j stg fuel env js w]
  by auto

lemma held_world_simps [simp]:
  "events held_world = []"
  "current_cluster held_world = 0"
  "queue held_world = [\<lparr>cluster_id = 7, is_globus_job = True, is_held = True\<rparr>,
                      \<lparr>cluster_id = 8, is_globus_job = True, is_held = True\<rparr>]"
  "ads held_world = (\<lambda>cid. [])(7 := [(''ENDPOINT_ACTIVATION_REQUIRED_0'', StringValue ''ep'')])"
  by (simp_all add: held_world_def empty_world_def activation_key_0)

lemma held_world_jobs:
  "get_globus_jobs held_world =
     [\<lparr>job_cluster_id = 7, job_is_held = True,
       job_items = [(''ENDPOINT_ACTIVATION_REQUIRED_0'', StringValue ''ep'')]\<rparr>,
      \<lparr>job_cluster_id = 8, job_is_held = True, job_items = []\<rparr>]"
  by (simp add: get_globus_jobs_def)

lemma manual_endpoints_of_example [simp]:
  "manual_endpoints_of [(''ENDPOINT_ACTIVATION_REQUIRED_0'', StringValue ''ep'')]
     = [(''ep'', ''ENDPOINT_ACTIVATION_REQUIRED_0'')]"
  "manual_endpoints_of [] = []"
  by (simp_all add: manual_endpoints_of_def startswith_def ENDPOINT_ACTIVATION_REQUIRED_def)

theorem release_processes_every_owned_job_witness:
  "\<exists>w'. release 0 deferred_env \<lparr>refresh_token = Some ''tok''\<rparr> held_world = Some (Inr (), w')
         \<and> releases w' = [7, 8]"
proof -
  from release_loop_deferred_total [of deferred_env "\<lparr>refresh_token = Some ''tok''\<rparr>" 0
      "get_globus_jobs held_world" held_world]
  obtain w' where w': "release 0 deferred_env \<lparr>refresh_token = Some ''tok''\<rparr> held_world
      = Some (Inr (), w')"
    by (auto simp: release_def)
  from release_processes_every_owned_job [of 0 deferred_env "\<lparr>refresh_token = Some ''tok''\<rparr>"
      held_world "()" w', THEN conjunct1] w'
  have "releases w' = [7, 8]" by (simp add: releases_def List.map_filter_simps)
  with w' show ?thesis by (intro exI [of _ w'] conjI)
qed

text \<open>
  Claim C3 as stated fails in "exactly the held ones": an owned job that is not held is
  processed like any other, and the scheduler is told to release it.
\<close>

theorem release_processes_job_not_held:
  "release 0 quiet_env \<lparr>refresh_token = None\<rparr> running_world
     = Some (Inr (), running_world\<lparr>events := [ScheddRelease 5]\<rparr>)
   \<and> map is_held (queue running_world) = [False]"
  by (simp add: release_def get_globus_jobs_def running_world_def empty_world_def
        release_loop.simps schedd_release_def record_event_def Let_def)


text \<open>
  Claim C6 (amended). The release command does not isolate failures per job. When a job
  record lists endpoints, a missing refresh token ends the whole command with the exit
  \<open>AUTHORIZATION_ERROR\<close>, and a failure of manual activation (a failed lookup, the
  operator's abort) ends it with that failure: the job is not released and the jobs
  after it are not processed. Endpoints that stay unresolved are no failure: with no
  terminal attached, a refresh token and every lookup answered, the scan completes,
  releases every owned job and returns normally.
\<close>

theorem release_failure_ends_scan:
  "(manual_endpoints_of (job_items j) \<noteq> [] \<and> refresh_token stg = None \<longrightarrow>
      (\<exists>msg. release_loop fuel env stg (j # js) w
                = Some (Inl (SysExit AUTHORIZATION_ERROR msg), w)))
   \<and> (manual_endpoints_of (job_items j) \<noteq> [] \<and> refresh_token stg \<noteq> None
        \<and> activate_endpoints_manually fuel env
             (map fst (manual_endpoints_of (job_items j))) w = Some (Inl f, w1) \<longrightarrow>
        release_loop fuel env stg (j # js) w = Some (Inl f, w1)
        \<and> releases w1 = releases w)
   \<and> (\<not> is_interactive env \<and> refresh_token stg \<noteq> None
        \<and> (\<forall>n e. get_endpoint env n e \<noteq> None) \<longrightarrow>
        (\<exists>w'. release fuel env stg w = Some (Inr (), w')
           \<and> releases w' = releases w @ map cluster_id (filter is_globus_job (queue w))))"
proof (intro conjI impI)
  assume "manual_endpoints_of (job_items j) \<noteq> [] \<and> refresh_token stg = None"
  then show "\<exists>msg. release_loop fuel env stg (j # js) w
                = Some (Inl (SysExit AUTHORIZATION_ERROR msg), w)"
    by (simp add: release_loop_step_no_token)
next
  assume h: "manual_endpoints_of (job_items j) \<noteq> [] \<and> refresh_token stg \<noteq> None
        \<and> activate_endpoints_manually fuel env
             (map fst (manual_endpoints_of (job_items j))) w = Some (Inl f, w1)"
  then show "release_loop fuel env stg (j # js) w = Some (Inl f, w1)"
    by (simp add: release_loop_step_manual)
  from h manual_loop_frame [of fuel env 0 "map fst (manual_endpoints_of (job_items j))" "[]" w
      "Inl f" w1]
  show "releases w1 = releases w" by (simp add: activate_endpoints_manually_def)
next
  assume h: "\<not> is_interactive env \<and> refresh_token stg \<noteq> None
        \<and> (\<forall>n e. get_endpoint env n e \<noteq> None)"
  then obtain w' where w': "release fuel env stg w = Some (Inr (), w')"
    using release_loop_deferred_total [of env stg fuel "get_globus_jobs w" w]
    by (auto simp: release_def)
  from release_def_releases [OF w'] w'
  show "\<exists>w'. release fuel env stg w = Some (Inr (), w')
           \<and> releases w' = releases w @ map cluster_id (filter is_globus_job (queue w))"
    by blast
qed

theorem release_failure_ends_scan_witness:
  "(\<exists>msg. release_loop 1 abort_env \<lparr>refresh_token = None\<rparr> [pending_job] held_world
            = Some (Inl (SysExit AUTHORIZATION_ERROR msg), held_world))
   \<and> (\<exists>w1. release_loop 1 abort_env \<lparr>refresh_token = Some ''tok''\<rparr> [pending_job] held_world
              = Some (Inl Aborted, w1) \<and> releases w1 = [])
   \<and> (\<exists>w'. release 0 deferred_env \<lparr>refresh_token = Some ''tok''\<rparr> held_world
              = Some (Inr (), w') \<and> releases w' = [7, 8])"
proof (intro conjI)
  have me: "manual_endpoints_of (job_items pending_job) = [(''ep'', ''ENDPOINT_ACTIVATION_REQUIRED_0'')]"
    by (simp add: pending_job_def)
  have r0: "releases held_world = []" by (simp add: releases_def List.map_filter_simps)
  from release_failure_ends_scan [of pending_job "\<lparr>refresh_token = None\<rparr>" 1 abort_env "[]"
      held_world, THEN conjunct1]
  show "\<exists>msg. release_loop 1 abort_env \<lparr>refresh_token = None\<rparr> [pending_job] held_world
            = Some (Inl (SysExit AUTHORIZATION_ERROR msg), held_world)"
    by (simp add: me)
  define w1 where "w1 = held_world\<lparr>events :=
            [Confirm False,
             GetEndpoint ''ep'' (Some (inactive_info ''ep'')),
             GetEndpoint ''ep'' (Some (inactive_info ''ep''))]\<rparr>"
  have m: "activate_endpoints_manually 1 abort_env [''ep''] held_world = Some (Inl Aborted, w1)"
    by (simp add: activate_endpoints_manually_def get_or_exit_def Let_def record_event_def
          now_def w1_def)
  from release_failure_ends_scan [of pending_job "\<lparr>refresh_token = Some ''tok''\<rparr>" 1 abort_env
      "[]" held_world Aborted w1, THEN conjunct2, THEN conjunct1] m
  have "release_loop 1 abort_env \<lparr>refresh_token = Some ''tok''\<rparr> [pending_job] held_world
              = Some (Inl Aborted, w1) \<and> releases w1 = []"
    by (simp add: me r0)
  then show "\<exists>w1. release_loop 1 abort_env \<lparr>refresh_token = Some ''tok''\<rparr> [pending_job] held_world
              = Some (Inl Aborted, w1) \<and> releases w1 = []"
    by (intro exI [of _ w1])
  from release_failure_ends_scan [of pending_job "\<lparr>refresh_token = Some ''tok''\<rparr>" 0
      deferred_env "[]" held_world Aborted held_world, THEN conjunct2, THEN conjunct2]
  show "\<exists>w'. release 0 deferred_env \<lparr>refresh_token = Some ''tok''\<rparr> held_world
              = Some (Inr (), w') \<and> releases w' = [7, 8]"
    by (simp add: r0)
qed

text \<open>
  Claim C6 as stated fails: with two held jobs, the operator's abort while the endpoint of
  the first is being activated ends the command with the abort, and a missing refresh
  token ends it with \<open>AUTHORIZATION_ERROR\<close>; in both runs no job is released and the
  second job is never looked at.
\<close>

theorem release_aborts_on_first_failure:
  "release 1 abort_env \<lparr>refresh_token = Some ''tok''\<rparr> held_world
     = Some (Inl Aborted,
         held_world\<lparr>events :=
            [Confirm False,
             GetEndpoint ''ep'' (Some (inactive_info ''ep'')),
             GetEndpoint ''ep'' (Some (inactive_info ''ep''))]\<rparr>)
   \<and> release 1 abort_env \<lparr>refresh_token = None\<rparr> held_world
     = Some (Inl (SysExit AUTHORIZATION_ERROR
                   ''Was not able to find a refresh token; have you run 'globus login'?''),
             held_world)
   \<and> map cluster_id (filter is_globus_job (queue held_world)) = [7, 8]"
  by (simp add: release_def held_world_jobs release_loop.simps Let_def
        get_transfer_client_or_exit_def activate_endpoints_manually_def get_or_exit_def
        record_event_def now_def)


subsection \<open>The attributes the resumer resets\<close>

lemma set_alist_update: "set (AList.update k v al) \<subseteq> insert (k, v) (set al)"
  by (induction al) auto

lemma manual_endpoints_fold_sound:
  "(e, k) \<in> set (foldl (\<lambda>d (k, v).
              case v of
                Undefined \<Rightarrow> d
              | StringValue e \<Rightarrow>
                  if startswith k ENDPOINT_ACTIVATION_REQUIRED then AList.update e k d else d)
       d kvs) \<Longrightarrow>
   (e, k) \<in> set d
   \<or> ((k, StringValue e) \<in> set kvs \<and> startswith k ENDPOINT_ACTIVATION_REQUIRED)"
proof (induction kvs arbitrary: d)
  case Nil
  then show ?case by simp
next
  case (Cons kv kvs)
  obtain k' v' where kv: "kv = (k', v')" by (cases kv)
  show ?case
  proof (cases v')
    case Undefined
    with Cons.prems kv Cons.IH [of d] show ?thesis by auto
  next
    case (StringValue e')
    show ?thesis
    proof (cases "startswith k' ENDPOINT_ACTIVATION_REQUIRED")
      case True
      with Cons.prems kv StringValue Cons.IH [of "AList.update e' k' d"]
      have "(e, k) \<in> set (AList.update e' k' d)
        \<or> ((k, StringValue e) \<in> set kvs \<and> startswith k ENDPOINT_ACTIVATION_REQUIRED)"
        by simp
      with set_alist_update [of e' k' d] kv StringValue True show ?thesis by auto
    next
      case False
      with Cons.prems kv StringValue Cons.IH [of d] show ?thesis by auto
    qed
  qed
qed

lemma manual_endpoints_of_sound:
  "(e, k) \<in> set (manual_endpoints_of kvs) \<Longrightarrow>
   (k, StringValue e) \<in> set kvs \<and> startswith k ENDPOINT_ACTIVATION_REQUIRED"
  using manual_endpoints_fold_sound [of e k "[]" kvs] by (simp add: manual_endpoints_of_def)

lemma release_one_interactive:
  assumes int: "is_interactive env"
    and run: "release_loop fuel env stg [j] w = Some (Inr u, w')"
  shows "\<exists>new. events w' = ScheddRelease (job_cluster_id j)
                   # rev (map (\<lambda>k. SetJobAttr (job_cluster_id j) k Undefined)
                            (map snd (manual_endpoints_of (job_items j))))
                   @ new @ events w
           \<and> (\<forall>e\<in>set (map fst (manual_endpoints_of (job_items j))).
                 list_ex (reports_active e) new)
           \<and> (\<exists>w1. ads w1 = ads w
                 \<and> w' = schedd_release (job_cluster_id j)
                          (reset_attrs (map snd (manual_endpoints_of (job_items j))) j w1))"
proof (cases "manual_endpoints_of (job_items j) = []")
  case True
  with run have "w' = schedd_release (job_cluster_id j) w"
    by (simp add: release_loop_step_plain)
  with True show ?thesis by (intro exI [of _ "[]"]) auto
next
  case False
  have tok: "refresh_token stg \<noteq> None"
  proof
    assume "refresh_token stg = None"
    with run False show False by (simp add: release_loop_step_no_token)
  qed
  let ?es = "map fst (manual_endpoints_of (job_items j))"
  let ?ks = "map snd (manual_endpoints_of (job_items j))"
  from run obtain un w1 where m: "activate_endpoints_manually fuel env ?es w = Some (Inr un, w1)"
    and w': "w' = schedd_release (job_cluster_id j) (reset_attrs ?ks j w1)"
    by (auto simp: release_loop_step_manual [OF False tok]
          split: option.splits sum.splits prod.splits)
  from manual_loop_transcript [OF m [unfolded activate_endpoints_manually_def]] int
  obtain new where new: "events w1 = new @ events w"
    "\<forall>e\<in>set ?es. list_ex (reports_active e) new"
    by auto
  from manual_loop_frame [OF m [unfolded activate_endpoints_manually_def]] int
  have a: "ads w1 = ads w" by simp
  show ?thesis
    by (rule exI [of _ new]) (use new a w' in \<open>auto simp: reset_attrs_events\<close>)
qed

text \<open>
  Claim C7 (amended). When the resumer runs with a terminal attached and finishes a job
  record, every attribute it has reset to the undefined sentinel is an
  \<open>ENDPOINT_ACTIVATION_REQUIRED\<close> attribute of that record whose endpoint a status query
  of this run reported active; every other attribute of the record, and every other job
  record, is as before.
\<close>

theorem release_resets_after_active:
  assumes "is_interactive env"
    and "release_loop fuel env stg [j] w = Some (Inr u, w')"
  shows "(\<forall>(e, k) \<in> set (manual_endpoints_of (job_items j)).
            (k, StringValue e) \<in> set (job_items j)
            \<and> startswith k ENDPOINT_ACTIVATION_REQUIRED
            \<and> list_ex (reports_active e) (new_events w w')
            \<and> map_of (ads w' (job_cluster_id j)) k = Some Undefined)
       \<and> (\<forall>k. k \<notin> snd ` set (manual_endpoints_of (job_items j)) \<longrightarrow>
            map_of (ads w' (job_cluster_id j)) k = map_of (ads w (job_cluster_id j)) k)
       \<and> (\<forall>cid. cid \<noteq> job_cluster_id j \<longrightarrow> ads w' cid = ads w cid)"
proof -
  let ?me = "manual_endpoints_of (job_items j)"
  let ?cid = "job_cluster_id j"
  from release_one_interactive [OF assms] obtain new w1 where
    ev: "events w' = (ScheddRelease ?cid
                   # rev (map (\<lambda>k. SetJobAttr ?cid k Undefined) (map snd ?me)) @ new)
                   @ events w" and
    act: "\<forall>e\<in>set (map fst ?me). list_ex (reports_active e) new" and
    a: "ads w1 = ads w" and
    w': "w' = schedd_release ?cid (reset_attrs (map snd ?me) j w1)"
    by auto
  have ne: "new_events w w' = ScheddRelease ?cid
                   # rev (map (\<lambda>k. SetJobAttr ?cid k Undefined) (map snd ?me)) @ new"
    by (rule new_events_eq [OF ev])
  have 1: "(k, StringValue e) \<in> set (job_items j)
            \<and> startswith k ENDPOINT_ACTIVATION_REQUIRED
            \<and> list_ex (reports_active e) (new_events w w')
            \<and> map_of (ads w' ?cid) k = Some Undefined"
    if "(e, k) \<in> set ?me" for e k
  proof -
    from that have "e \<in> set (map fst ?me)" and k: "k \<in> set (map snd ?me)" by force+
    with act have "list_ex (reports_active e) new" by blast
    moreover from reset_attrs_key [OF k, of j w1]
    have "map_of (ads w' ?cid) k = Some Undefined" by (simp add: w')
    ultimately show ?thesis using manual_endpoints_of_sound [OF that] by (simp add: ne)
  qed
  have 2: "map_of (ads w' ?cid) k = map_of (ads w ?cid) k" if "k \<notin> snd ` set ?me" for k
    using reset_attrs_other_key [of k "map snd ?me" j w1] that by (simp add: w' a)
  have 3: "ads w' cid = ads w cid" if "cid \<noteq> ?cid" for cid
    using reset_attrs_other_job [OF that, of "map snd ?me" w1] by (simp add: w' a)
  from 1 2 3 show ?thesis by blast
qed


lemma patient_env_simps [simp]:
  "is_interactive patient_env = True"
  "get_endpoint patient_env n e = Some (if n < 2 then inactive_info e else active_info e)"
  "confirm patient_env n = True"
  by (simp_all add: patient_env_def quiet_env_def)

theorem release_resets_after_active_witness:
  "\<exists>w'. release_loop 2 patient_env \<lparr>refresh_token = Some ''tok''\<rparr> [pending_job] held_world
           = Some (Inr (), w')
        \<and> list_ex (reports_active ''ep'') (new_events held_world w')
        \<and> map_of (ads w' 7) ''ENDPOINT_ACTIVATION_REQUIRED_0'' = Some Undefined
        \<and> ads w' 8 = ads held_world 8"
proof -
  define w' where "w' = schedd_release 7
      (reset_attrs [''ENDPOINT_ACTIVATION_REQUIRED_0''] pending_job
        (held_world\<lparr>events :=
            [GetEndpoint ''ep'' (Some (active_info ''ep'')),
             Confirm True,
             GetEndpoint ''ep'' (Some (inactive_info ''ep'')),
             GetEndpoint ''ep'' (Some (inactive_info ''ep''))]\<rparr>))"
  have me: "manual_endpoints_of (job_items pending_job)
      = [(''ep'', ''ENDPOINT_ACTIVATION_REQUIRED_0'')]"
    by (simp add: pending_job_def)
  have cid: "job_cluster_id pending_job = 7" by (simp add: pending_job_def)
  have m: "activate_endpoints_manually 2 patient_env [''ep''] held_world
      = Some (Inr [],
          held_world\<lparr>events :=
            [GetEndpoint ''ep'' (Some (active_info ''ep'')),
             Confirm True,
             GetEndpoint ''ep'' (Some (inactive_info ''ep'')),
             GetEndpoint ''ep'' (Some (inactive_info ''ep''))]\<rparr>)"
    by (simp add: activate_endpoints_manually_def get_or_exit_def Let_def record_event_def
          now_def numeral_2_eq_2)
  have run: "release_loop 2 patient_env \<lparr>refresh_token = Some ''tok''\<rparr> [pending_job] held_world
           = Some (Inr (), w')"
    by (simp add: release_loop_step_manual me m w'_def cid)
  from release_resets_after_active [OF _ run]
  have "list_ex (reports_active ''ep'') (new_events held_world w')
        \<and> map_of (ads w' 7) ''ENDPOINT_ACTIVATION_REQUIRED_0'' = Some Undefined
        \<and> ads w' 8 = ads held_world 8"
    by (simp add: me cid)
  with run show ?thesis by (intro exI [of _ w'] conjI) simp_all
qed

text \<open>
  Claim C7 as stated fails when no terminal is attached: manual activation then only
  records the endpoint as still unresolved (on the record of the current job), its
  result is not looked at, and the resumer resets the attribute of the held job although
  every status query reported the endpoint inactive.
\<close>

theorem release_resets_unresolved_attribute:
  "ads held_world 7 = [(''ENDPOINT_ACTIVATION_REQUIRED_0'', StringValue ''ep'')]
   \<and> release 0 deferred_env \<lparr>refresh_token = Some ''tok''\<rparr> held_world
     = Some (Inr (),
         held_world\<lparr>events :=
             [ScheddRelease 8,
              ScheddRelease 7,
              SetJobAttr 7 ''ENDPOINT_ACTIVATION_REQUIRED_0'' Undefined,
              SetJobAttr 0 ''ENDPOINT_ACTIVATION_REQUIRED_0'' (StringValue ''ep''),
              GetEndpoint ''ep'' (Some (inactive_info ''ep''))],
           queue := [\<lparr>cluster_id = 7, is_globus_job = True, is_held = False\<rparr>,
                     \<lparr>cluster_id = 8, is_globus_job = True, is_held = False\<rparr>],
           ads := (ads held_world)
                    (0 := [(''ENDPOINT_ACTIVATION_REQUIRED_0'', StringValue ''ep'')],
                     7 := [(''ENDPOINT_ACTIVATION_REQUIRED_0'', Undefined)])\<rparr>)
   \<and> is_active (inactive_info ''ep'') = False"
  by (simp add: release_def held_world_jobs release_loop.simps Let_def
        get_transfer_client_or_exit_def activate_endpoints_manually_def get_or_exit_def
        set_job_attr_def schedd_release_def record_event_def now_def activation_key_0
        fun_upd_twist)


end
